theory Spec2Isabelle
  imports Complex_Main "HOL-Library.Log_Nat"
begin

section \<open>DigiPIN: the codec of digipin.js\<close>

text \<open>
  The development embeds the five exported functions of \<^verbatim>\<open>digipin.js\<close>:
  \<^verbatim>\<open>encodeDigipin\<close>, \<^verbatim>\<open>decodeDigipin\<close>, \<^verbatim>\<open>isValidDigipin\<close>, \<^verbatim>\<open>formatDigipin\<close> and
  \<^verbatim>\<open>isWithinBounds\<close>, together with the two tables \<^verbatim>\<open>DIGIPIN_GRID\<close> and
  \<^verbatim>\<open>CHAR_TO_POS\<close>.
\<close>

subsection \<open>Strings\<close>

text \<open>
  A JavaScript string is a sequence of 16-bit code units. For \<^verbatim>\<open>decodeDigipin\<close> and
  \<^verbatim>\<open>isValidDigipin\<close> it is modelled as a \<^typ>\<open>string\<close>, one \<^typ>\<open>char\<close> per code unit.
  \<^verbatim>\<open>s.replace(/-/g, '')\<close> deletes every hyphen; \<^verbatim>\<open>s.toUpperCase()\<close> is modelled on the
  ASCII range, where it maps \<^verbatim>\<open>a\<close>..\<^verbatim>\<open>z\<close> to \<^verbatim>\<open>A\<close>..\<^verbatim>\<open>Z\<close> and leaves every other
  character alone (the case mapping of non-ASCII code points, some of which change the
  length of the string, is not part of this model). \<^verbatim>\<open>s.slice(a, b)\<close> with
  \<open>0 \<le> a \<le> b\<close> keeps the characters at the positions \<open>a\<close> to \<open>b - 1\<close> that
  exist.
\<close>

definition replace_hyphens :: "string \<Rightarrow> string" where
  "replace_hyphens s = filter (\<lambda>c. c \<noteq> CHR ''-'') s"

definition toUpperChar :: "char \<Rightarrow> char" where
  "toUpperChar c =
     (case map_of (zip ''abcdefghijklmnopqrstuvwxyz'' ''ABCDEFGHIJKLMNOPQRSTUVWXYZ'') c of
        Some u \<Rightarrow> u
      | None \<Rightarrow> c)"

definition toUpperCase :: "string \<Rightarrow> string" where
  "toUpperCase s = map toUpperChar s"

definition slice :: "nat \<Rightarrow> nat \<Rightarrow> 'a list \<Rightarrow> 'a list" where
  "slice a b s = take (b - a) (drop a s)"

text \<open>
  \<^verbatim>\<open>formatDigipin\<close> returns its argument or the upper-cased string itself, so that its
  result shows how the runtime upper-cases every character, also outside ASCII
  (the sharp s, U+00DF, becomes \<^verbatim>\<open>SS\<close>, two characters for one). For this function a
  string is therefore the list of its code units, natural numbers (those of a JavaScript
  string are below \<open>2 ^ 16\<close>, which nothing here depends on), and
  \<^verbatim>\<open>String.prototype.toUpperCase\<close>, whose case table belongs to the runtime and not to
  the repository, is a parameter \<open>upper\<close> of the model. \<open>units\<close> turns a string of
  8-bit characters into its code units; the hyphen is the code unit 45.
\<close>

type_synonym code_unit = nat

type_synonym js_string = "code_unit list"

definition hyphen :: code_unit where
  "hyphen = 45"

definition units :: "string \<Rightarrow> js_string" where
  "units s = map of_char s"

definition remove_hyphens :: "js_string \<Rightarrow> js_string" where
  "remove_hyphens s = filter (\<lambda>u. u \<noteq> hyphen) s"

subsection \<open>Numbers\<close>

text \<open>
  A JavaScript number that is neither NaN nor infinite is modelled as the real number it
  denotes. Every arithmetic operation of the source rounds its exact result to a number
  again; the rounding function is a parameter \<open>rnd\<close> of the model, so that the same
  definitions describe the algorithm in exact arithmetic (\<open>rnd = exact\<close>) and in
  IEEE-754 double precision (\<open>rnd = binary64\<close>, below). Comparisons, \<^verbatim>\<open>Math.floor\<close>,
  \<^verbatim>\<open>Math.min\<close> and \<^verbatim>\<open>Math.max\<close> are exact in both. A division by zero, which would
  give an infinity or NaN in the source, has no counterpart in the model; the divisors
  \<^verbatim>\<open>latDiv\<close> and \<^verbatim>\<open>lonDiv\<close> of the two loops are shown to be \<open>36 / 4 ^ (k + 1)\<close> at
  level \<open>k\<close> (\<open>cell_divs\<close>), for exact and for binary64 arithmetic.
\<close>

type_synonym rounding = "real \<Rightarrow> real"

definition num_add :: "rounding \<Rightarrow> real \<Rightarrow> real \<Rightarrow> real" where
  "num_add rnd a b = rnd (a + b)"

definition num_sub :: "rounding \<Rightarrow> real \<Rightarrow> real \<Rightarrow> real" where
  "num_sub rnd a b = rnd (a - b)"

definition num_mul :: "rounding \<Rightarrow> real \<Rightarrow> real \<Rightarrow> real" where
  "num_mul rnd a b = rnd (a * b)"

definition num_div :: "rounding \<Rightarrow> real \<Rightarrow> real \<Rightarrow> real" where
  "num_div rnd a b = rnd (a / b)"

text \<open>Exact arithmetic: nothing is rounded.\<close>

definition exact :: rounding where
  "exact x = x"

text \<open>
  IEEE-754 binary64, round to nearest, ties to even, on the finite range: a result \<open>x\<close>
  with \<open>2 ^ e \<le> \<bar>x\<bar> < 2 ^ (e + 1)\<close> is rounded to a multiple of \<open>2 ^ (e - 52)\<close>
  (of \<open>2 ^ -1074\<close> in the subnormal range). \<open>ilog2 x\<close> is \<open>\<lfloor>log\<^sub>2 x\<rfloor>\<close> for \<open>0 < x\<close>.
  Overflow to infinity (beyond \<open>2 ^ 1024\<close>) is outside the model; the codec never leaves
  the interval from \<open>-128\<close> to \<open>128\<close>.
\<close>

definition round_half_even :: "real \<Rightarrow> int" where
  "round_half_even q =
     (let f = \<lfloor>q\<rfloor>; d = q - of_int f
      in if d < 1 / 2 then f
         else if 1 / 2 < d then f + 1
         else if even f then f else f + 1)"

definition ilog2 :: "real \<Rightarrow> int" where
  "ilog2 x = (if 1 \<le> x then bitlen \<lfloor>x\<rfloor> - 1 else - bitlen (\<lceil>1 / x\<rceil> - 1))"

definition binary64 :: rounding where
  "binary64 x =
     (if x = 0 then 0
      else let e = max (ilog2 \<bar>x\<bar>) (- 1022);
               u = 2 powi (e - 52)
           in of_int (round_half_even (x / u)) * u)"

subsection \<open>The constants and the two tables\<close>

definition MIN_LAT :: real where "MIN_LAT = 2.5"
definition MAX_LAT :: real where "MAX_LAT = 38.5"
definition MIN_LON :: real where "MIN_LON = 63.5"
definition MAX_LON :: real where "MAX_LON = 99.5"

definition DIGIPIN_GRID :: "char list list" where
  "DIGIPIN_GRID =
     [[CHR ''F'', CHR ''C'', CHR ''9'', CHR ''8''],
      [CHR ''J'', CHR ''3'', CHR ''2'', CHR ''7''],
      [CHR ''K'', CHR ''4'', CHR ''5'', CHR ''6''],
      [CHR ''L'', CHR ''M'', CHR ''P'', CHR ''T'']]"

text \<open>
  \<^verbatim>\<open>CHAR_TO_POS\<close> is filled by the two nested loops over \<open>row\<close> and \<open>col\<close>; a later
  assignment to the same key would overwrite an earlier one.
\<close>

definition CHAR_TO_POS :: "char \<rightharpoonup> nat \<times> nat" where
  "CHAR_TO_POS =
     fold (\<lambda>row m. fold (\<lambda>col m. m(DIGIPIN_GRID ! row ! col \<mapsto> (row, col))) [0..<4] m)
       [0..<4] Map.empty"

text \<open>
  \<^verbatim>\<open>DIGIPIN_GRID[row][col]\<close> for integers \<open>row\<close> and \<open>col\<close>: a row index out of range
  reads \<^verbatim>\<open>undefined\<close>, and indexing \<^verbatim>\<open>undefined\<close> throws a TypeError; a column index
  out of range reads \<^verbatim>\<open>undefined\<close>, which \<^verbatim>\<open>+=\<close> appends as the text
  \<^verbatim>\<open>undefined\<close>. The result is the text appended to the code.
\<close>

datatype error = TypeError

definition grid_lookup :: "int \<Rightarrow> int \<Rightarrow> error + string" where
  "grid_lookup row col =
     (if 0 \<le> row \<and> row < int (length DIGIPIN_GRID)
      then (let r = DIGIPIN_GRID ! nat row
            in if 0 \<le> col \<and> col < int (length r) then Inr [r ! nat col]
               else Inr ''undefined'')
      else Inl TypeError)"

subsection \<open>Data\<close>

text \<open>
  The four loop variables \<^verbatim>\<open>minLat\<close>, \<^verbatim>\<open>maxLat\<close>, \<^verbatim>\<open>minLon\<close>, \<^verbatim>\<open>maxLon\<close> and the
  \<^verbatim>\<open>bounds\<close> object that \<^verbatim>\<open>decodeDigipin\<close> returns are the same record. The object
  returned by \<^verbatim>\<open>decodeDigipin\<close> has the fields \<^verbatim>\<open>lat\<close>, \<^verbatim>\<open>lon\<close> (the centre of the cell,
  here \<open>center_lat\<close> and \<open>center_lon\<close>) and \<^verbatim>\<open>bounds\<close>.
\<close>

record rect =
  minLat :: real
  maxLat :: real
  minLon :: real
  maxLon :: real

record decoded =
  center_lat :: real
  center_lon :: real
  bounds :: rect

definition INDIA :: rect where
  "INDIA = \<lparr>minLat = MIN_LAT, maxLat = MAX_LAT, minLon = MIN_LON, maxLon = MAX_LON\<rparr>"

subsection \<open>encodeDigipin\<close>

text \<open>
  One iteration of the loop of \<^verbatim>\<open>encodeDigipin\<close>. \<open>encode_row\<close> and \<open>encode_col\<close> are
  the values of \<^verbatim>\<open>row\<close> and \<^verbatim>\<open>col\<close> after the clamping; \<open>encode_level\<close> appends the
  symbol and narrows the rectangle, \<^verbatim>\<open>minLat\<close> and \<^verbatim>\<open>maxLon\<close> being computed from the
  already updated \<^verbatim>\<open>maxLat\<close> and \<^verbatim>\<open>minLon\<close>.
\<close>

definition encode_row :: "rounding \<Rightarrow> real \<Rightarrow> rect \<Rightarrow> int" where
  "encode_row rnd lat c =
     (let latDiv = num_div rnd (num_sub rnd (maxLat c) (minLat c)) 4;
          row = \<lfloor>num_div rnd (num_sub rnd (maxLat c) lat) latDiv\<rfloor>
      in min 3 (max 0 row))"

definition encode_col :: "rounding \<Rightarrow> real \<Rightarrow> rect \<Rightarrow> int" where
  "encode_col rnd lon c =
     (let lonDiv = num_div rnd (num_sub rnd (maxLon c) (minLon c)) 4;
          col = \<lfloor>num_div rnd (num_sub rnd lon (minLon c)) lonDiv\<rfloor>
      in min 3 (max 0 col))"

definition encode_level ::
  "rounding \<Rightarrow> real \<Rightarrow> real \<Rightarrow> rect \<times> string \<Rightarrow> error + rect \<times> string" where
  "encode_level rnd lat lon st =
     (let c = fst st; digipin = snd st;
          latDiv = num_div rnd (num_sub rnd (maxLat c) (minLat c)) 4;
          lonDiv = num_div rnd (num_sub rnd (maxLon c) (minLon c)) 4;
          row = encode_row rnd lat c;
          col = encode_col rnd lon c
      in case grid_lookup row col of
           Inl e \<Rightarrow> Inl e
         | Inr symbol \<Rightarrow>
             (let maxLat' = num_sub rnd (maxLat c) (num_mul rnd (of_int row) latDiv);
                  minLat' = num_sub rnd maxLat' latDiv;
                  minLon' = num_add rnd (minLon c) (num_mul rnd (of_int col) lonDiv);
                  maxLon' = num_add rnd minLon' lonDiv
              in Inr (\<lparr>minLat = minLat', maxLat = maxLat', minLon = minLon', maxLon = maxLon'\<rparr>,
                      digipin @ symbol)))"

function encode_loop ::
  "rounding \<Rightarrow> real \<Rightarrow> real \<Rightarrow> nat \<Rightarrow> rect \<times> string \<Rightarrow> error + rect \<times> string" where
  "encode_loop rnd lat lon level st =
     (if level < 10
      then (case encode_level rnd lat lon st of
              Inl e \<Rightarrow> Inl e
            | Inr st' \<Rightarrow> encode_loop rnd lat lon (level + 1) st')
      else Inr st)"
  by pat_completeness auto
termination
  by (relation "measure (\<lambda>(rnd, lat, lon, level, st). 10 - level)") auto

text \<open>
  The result is \<open>Inl TypeError\<close> for a thrown exception, \<open>Inr None\<close> for \<^verbatim>\<open>null\<close> and
  \<open>Inr (Some code)\<close> for a returned string.
\<close>

definition encodeDigipin :: "rounding \<Rightarrow> real \<Rightarrow> real \<Rightarrow> error + string option" where
  "encodeDigipin rnd lat lon =
     (if lat < MIN_LAT \<or> lat > MAX_LAT \<or> lon < MIN_LON \<or> lon > MAX_LON then Inr None
      else (case encode_loop rnd lat lon 0 (INDIA, '''') of
              Inl e \<Rightarrow> Inl e
            | Inr st \<Rightarrow>
                (let digipin = snd st
                 in Inr (Some (slice 0 3 digipin @ ''-'' @ slice 3 6 digipin @ ''-'' @
                               slice 6 10 digipin)))))"

subsection \<open>decodeDigipin, isValidDigipin, formatDigipin, isWithinBounds\<close>

text \<open>
  The loop \<^verbatim>\<open>for (const char of pin) if (!CHAR_TO_POS[char]) return ...\<close>: every value
  stored in \<^verbatim>\<open>CHAR_TO_POS\<close> is an array, which is truthy, and no property inherited from
  \<^verbatim>\<open>Object.prototype\<close> has a one-character name, so the test fails exactly on the
  characters that are not keys of the table.
\<close>

fun chars_known :: "string \<Rightarrow> bool" where
  "chars_known [] = True"
| "chars_known (char # rest) = (if CHAR_TO_POS char = None then False else chars_known rest)"

text \<open>
  One iteration of the loop of \<^verbatim>\<open>decodeDigipin\<close>; destructuring an undefined table
  entry would throw a TypeError, and so would reading past the end of \<^verbatim>\<open>pin\<close>.
\<close>

definition decode_level :: "rounding \<Rightarrow> string \<Rightarrow> nat \<Rightarrow> rect \<Rightarrow> error + rect" where
  "decode_level rnd pin level c =
     (if level < length pin
      then (case CHAR_TO_POS (pin ! level) of
              None \<Rightarrow> Inl TypeError
            | Some (row, col) \<Rightarrow>
                (let latDiv = num_div rnd (num_sub rnd (maxLat c) (minLat c)) 4;
                     lonDiv = num_div rnd (num_sub rnd (maxLon c) (minLon c)) 4;
                     newMaxLat = num_sub rnd (maxLat c) (num_mul rnd (of_nat row) latDiv);
                     newMinLat = num_sub rnd newMaxLat latDiv;
                     newMinLon = num_add rnd (minLon c) (num_mul rnd (of_nat col) lonDiv);
                     newMaxLon = num_add rnd newMinLon lonDiv
                 in Inr \<lparr>minLat = newMinLat, maxLat = newMaxLat,
                         minLon = newMinLon, maxLon = newMaxLon\<rparr>))
      else Inl TypeError)"

function decode_loop :: "rounding \<Rightarrow> string \<Rightarrow> nat \<Rightarrow> rect \<Rightarrow> error + rect" where
  "decode_loop rnd pin level c =
     (if level < 10
      then (case decode_level rnd pin level c of
              Inl e \<Rightarrow> Inl e
            | Inr c' \<Rightarrow> decode_loop rnd pin (level + 1) c')
      else Inr c)"
  by pat_completeness auto
termination
  by (relation "measure (\<lambda>(rnd, pin, level, c). 10 - level)") auto

definition decodeDigipin :: "rounding \<Rightarrow> string \<Rightarrow> error + decoded option" where
  "decodeDigipin rnd digipin =
     (let pin = toUpperCase (replace_hyphens digipin)
      in if length pin \<noteq> 10 then Inr None
         else if \<not> chars_known pin then Inr None
         else (case decode_loop rnd pin 0 INDIA of
                 Inl e \<Rightarrow> Inl e
               | Inr c \<Rightarrow>
                   Inr (Some \<lparr>center_lat = num_div rnd (num_add rnd (minLat c) (maxLat c)) 2,
                              center_lon = num_div rnd (num_add rnd (minLon c) (maxLon c)) 2,
                              bounds = c\<rparr>)))"

definition isValidDigipin :: "string \<Rightarrow> bool" where
  "isValidDigipin digipin =
     (let pin = toUpperCase (replace_hyphens digipin)
      in if length pin \<noteq> 10 then False else chars_known pin)"

definition formatDigipin :: "(js_string \<Rightarrow> js_string) \<Rightarrow> js_string \<Rightarrow> js_string" where
  "formatDigipin upper pin =
     (let clean = upper (remove_hyphens pin)
      in if length clean \<noteq> 10 then pin
         else slice 0 3 clean @ [hyphen] @ slice 3 6 clean @ [hyphen] @ slice 6 10 clean)"

definition isWithinBounds :: "real \<Rightarrow> real \<Rightarrow> bool" where
  "isWithinBounds lat lon \<longleftrightarrow> lat \<ge> MIN_LAT \<and> lat \<le> MAX_LAT \<and> lon \<ge> MIN_LON \<and> lon \<le> MAX_LON"

text \<open>The 16 symbols of the alphabet.\<close>

definition alphabet :: "char set" where
  "alphabet = set ''23456789CFJKLMPT''"

subsection \<open>Notions used in the statements\<close>

text \<open>
  The template \<^verbatim>\<open>`${s.slice(0, 3)}-${s.slice(3, 6)}-${s.slice(6, 10)}`\<close> that
  \<^verbatim>\<open>encodeDigipin\<close> and \<^verbatim>\<open>formatDigipin\<close> both end with.
\<close>

definition hyphenate :: "string \<Rightarrow> string" where
  "hyphenate t = slice 0 3 t @ ''-'' @ slice 3 6 t @ ''-'' @ slice 6 10 t"

text \<open>
  Two properties of upper-casing that the statements about \<^verbatim>\<open>formatDigipin\<close> refer to:
  upper-casing an upper-cased string changes nothing, and upper-casing a string without
  hyphens gives a string without hyphens. Both hold of the case mapping of Unicode, in
  which no character other than the hyphen is mapped to a sequence with a hyphen.
\<close>

definition upper_idempotent :: "(js_string \<Rightarrow> js_string) \<Rightarrow> bool" where
  "upper_idempotent upper \<longleftrightarrow> (\<forall>s. upper (upper s) = upper s)"

definition upper_makes_no_hyphen :: "(js_string \<Rightarrow> js_string) \<Rightarrow> bool" where
  "upper_makes_no_hyphen upper \<longleftrightarrow> (\<forall>s. hyphen \<notin> set s \<longrightarrow> hyphen \<notin> set (upper s))"

text \<open>
  A part of the case table, on which the statements are evaluated: the letters
  \<^verbatim>\<open>a\<close>..\<^verbatim>\<open>z\<close> (97..122) and the Latin-1 letters U+00E0..U+00FE other than the division
  sign U+00F7 become the character 32 positions before; the sharp s (U+00DF, 223) becomes
  \<^verbatim>\<open>SS\<close> and the ligature U+FB00 (64256) becomes \<^verbatim>\<open>FF\<close>, both two characters long.
\<close>

definition sample_upper_unit :: "code_unit \<Rightarrow> js_string" where
  "sample_upper_unit u =
     (if 97 \<le> u \<and> u \<le> 122 then [u - 32]
      else if u = 223 then [83, 83]
      else if 224 \<le> u \<and> u \<le> 254 \<and> u \<noteq> 247 then [u - 32]
      else if u = 64256 then [70, 70]
      else [u])"

definition sample_upper :: "js_string \<Rightarrow> js_string" where
  "sample_upper s = concat (map sample_upper_unit s)"

text \<open>
  The symbol of the grid at a position, and the narrowing of the rectangle to the sub-cell
  at \<open>(row, col)\<close>, which the two loops compute with the same operations in the same
  order.
\<close>

definition symbol_at :: "nat \<Rightarrow> nat \<Rightarrow> char" where
  "symbol_at row col = DIGIPIN_GRID ! row ! col"

definition narrow :: "rounding \<Rightarrow> rect \<Rightarrow> nat \<Rightarrow> nat \<Rightarrow> rect" where
  "narrow rnd c row col =
     (let latDiv = num_div rnd (num_sub rnd (maxLat c) (minLat c)) 4;
          lonDiv = num_div rnd (num_sub rnd (maxLon c) (minLon c)) 4;
          newMaxLat = num_sub rnd (maxLat c) (num_mul rnd (of_nat row) latDiv);
          newMinLon = num_add rnd (minLon c) (num_mul rnd (of_nat col) lonDiv)
      in \<lparr>minLat = num_sub rnd newMaxLat latDiv, maxLat = newMaxLat,
          minLon = newMinLon, maxLon = num_add rnd newMinLon lonDiv\<rparr>)"

text \<open>
  A point is contained in a rectangle when it lies between its bounds, the bounds
  included. A rectangle owns the points of the half-open region that excludes its southern
  and its eastern edge; where that edge is the southern or the eastern edge of the whole
  region, beyond which there is no cell, the rectangle owns it as well. A rectangle is
  proper when it has a positive height and width.
\<close>

definition contains :: "rect \<Rightarrow> real \<Rightarrow> real \<Rightarrow> bool" where
  "contains c lat lon \<longleftrightarrow>
     minLat c \<le> lat \<and> lat \<le> maxLat c \<and> minLon c \<le> lon \<and> lon \<le> maxLon c"

definition owns :: "rect \<Rightarrow> real \<Rightarrow> real \<Rightarrow> bool" where
  "owns c lat lon \<longleftrightarrow>
     (minLat c < lat \<or> minLat c = MIN_LAT \<and> lat = MIN_LAT) \<and> lat \<le> maxLat c \<and>
     minLon c \<le> lon \<and> (lon < maxLon c \<or> maxLon c = MAX_LON \<and> lon = MAX_LON)"

definition proper :: "rect \<Rightarrow> bool" where
  "proper c \<longleftrightarrow> minLat c < maxLat c \<and> minLon c < maxLon c"

text \<open>
  The cell in row \<open>R\<close> (counted from the north) and column \<open>C\<close> (counted from the
  west) of the subdivision of the region into \<open>4 ^ k\<close> by \<open>4 ^ k\<close> cells, each
  \<open>36 / 4 ^ k\<close> degrees high and wide.
\<close>

definition cell :: "nat \<Rightarrow> nat \<Rightarrow> nat \<Rightarrow> rect" where
  "cell k R C =
     \<lparr>minLat = MAX_LAT - (of_nat R + 1) * (36 / 4 ^ k), maxLat = MAX_LAT - of_nat R * (36 / 4 ^ k),
      minLon = MIN_LON + of_nat C * (36 / 4 ^ k), maxLon = MIN_LON + (of_nat C + 1) * (36 / 4 ^ k)\<rparr>"

text \<open>
  All bounds that the loops compute are multiples of \<open>2 ^ -20\<close> below 256 in absolute
  value. A rounding function is exact on the grid when it returns these numbers unchanged;
  exact arithmetic and binary64 both are.
\<close>

definition on_grid :: "real \<Rightarrow> bool" where
  "on_grid x \<longleftrightarrow> x * 2 ^ 20 \<in> \<int> \<and> \<bar>x\<bar> < 256"

definition grid_exact :: "rounding \<Rightarrow> bool" where
  "grid_exact rnd \<longleftrightarrow> (\<forall>x. on_grid x \<longrightarrow> rnd x = x)"

text \<open>
  The position of a cell of the finest level that a sequence of symbols leads to: every
  symbol contributes one base-4 digit to the row and one to the column.
\<close>

primrec path_index :: "nat \<times> nat \<Rightarrow> string \<Rightarrow> nat \<times> nat" where
  "path_index rc [] = rc"
| "path_index rc (ch # rest) =
     (case CHAR_TO_POS ch of
        None \<Rightarrow> path_index rc rest
      | Some (row, col) \<Rightarrow> path_index (4 * fst rc + row, 4 * snd rc + col) rest)"


text \<open>
  A rounding function is accurate when it changes a number of the normal range by at most
  the fraction \<open>2 ^ -53\<close> of it, the error bound of round-to-nearest in binary64.

  A latitude is on the lattice when its distance from the northern edge of the region is a
  whole multiple of half the height \<open>36 / 4 ^ 10\<close> of a finest cell, a longitude when
  its distance from the western edge is; the edges and the centre lines of all cells are
  on the lattice, and on the lattice the loop of \<^verbatim>\<open>encodeDigipin\<close> computes without
  rounding error. A latitude is clear for a rectangle when it is on the lattice or lies in
  the rectangle at least \<open>margin\<close>, which is \<open>2 ^ -45\<close> degrees, from its northern and
  its southern edge; a longitude likewise. Rounding leaves a point unaffected, with respect
  to a rectangle, when there is no rounding or both its coordinates are clear.
\<close>

definition accurate :: "rounding \<Rightarrow> bool" where
  "accurate rnd \<longleftrightarrow> (\<forall>x. 2 powi (- 1022) \<le> \<bar>x\<bar> \<longrightarrow> \<bar>rnd x - x\<bar> \<le> \<bar>x\<bar> / 2 ^ 53)"

definition margin :: real where
  "margin = 1 / 2 ^ 45"

definition lattice_lat :: "real \<Rightarrow> bool" where
  "lattice_lat lat \<longleftrightarrow> (MAX_LAT - lat) / (9 / 2 ^ 19) \<in> \<int>"

definition lattice_lon :: "real \<Rightarrow> bool" where
  "lattice_lon lon \<longleftrightarrow> (lon - MIN_LON) / (9 / 2 ^ 19) \<in> \<int>"

definition clear_lat :: "rect \<Rightarrow> real \<Rightarrow> bool" where
  "clear_lat c lat \<longleftrightarrow>
     lattice_lat lat \<or> minLat c + margin \<le> lat \<and> lat \<le> maxLat c - margin"

definition clear_lon :: "rect \<Rightarrow> real \<Rightarrow> bool" where
  "clear_lon c lon \<longleftrightarrow>
     lattice_lon lon \<or> minLon c + margin \<le> lon \<and> lon \<le> maxLon c - margin"

definition unaffected :: "rounding \<Rightarrow> rect \<Rightarrow> real \<Rightarrow> real \<Rightarrow> bool" where
  "unaffected rnd c lat lon \<longleftrightarrow> rnd = exact \<or> clear_lat c lat \<and> clear_lon c lon"

declare decode_loop.simps [simp del] encode_loop.simps [simp del]

section \<open>Parsing, validation and formatting\<close>

subsection \<open>Normalisation\<close>

lemma toUpperChar_idem: "toUpperChar (toUpperChar c) = toUpperChar c"
  by (simp add: toUpperChar_def)

lemma toUpperChar_hyphen: "toUpperChar c = CHR ''-'' \<longleftrightarrow> c = CHR ''-''"
  by (simp add: toUpperChar_def)

lemma replace_hyphens_toUpperCase:
  "replace_hyphens (toUpperCase s) = toUpperCase (replace_hyphens s)"
  by (induction s) (simp_all add: replace_hyphens_def toUpperCase_def toUpperChar_hyphen)

lemma replace_hyphens_idem: "replace_hyphens (replace_hyphens s) = replace_hyphens s"
  by (simp add: replace_hyphens_def)

lemma toUpperCase_idem: "toUpperCase (toUpperCase s) = toUpperCase s"
  by (simp add: toUpperCase_def toUpperChar_idem)

lemma normalize_idem:
  "toUpperCase (replace_hyphens (toUpperCase (replace_hyphens s))) =
   toUpperCase (replace_hyphens s)"
  by (simp add: replace_hyphens_toUpperCase replace_hyphens_idem toUpperCase_idem)

subsection \<open>The inverse table\<close>

lemma CHAR_TO_POS_eval:
  "CHAR_TO_POS =
     [CHR ''F'' \<mapsto> (0, 0), CHR ''C'' \<mapsto> (0, 1), CHR ''9'' \<mapsto> (0, 2), CHR ''8'' \<mapsto> (0, 3),
      CHR ''J'' \<mapsto> (1, 0), CHR ''3'' \<mapsto> (1, 1), CHR ''2'' \<mapsto> (1, 2), CHR ''7'' \<mapsto> (1, 3),
      CHR ''K'' \<mapsto> (2, 0), CHR ''4'' \<mapsto> (2, 1), CHR ''5'' \<mapsto> (2, 2), CHR ''6'' \<mapsto> (2, 3),
      CHR ''L'' \<mapsto> (3, 0), CHR ''M'' \<mapsto> (3, 1), CHR ''P'' \<mapsto> (3, 2), CHR ''T'' \<mapsto> (3, 3)]"
  by (simp add: CHAR_TO_POS_def DIGIPIN_GRID_def upt_rec numeral_2_eq_2 numeral_3_eq_3)

lemma alphabet_grid: "alphabet = set (concat DIGIPIN_GRID)"
  by (auto simp: alphabet_def DIGIPIN_GRID_def)

lemma CHAR_TO_POS_None: "CHAR_TO_POS c = None \<longleftrightarrow> c \<notin> alphabet"
  unfolding CHAR_TO_POS_eval alphabet_def by auto

lemma chars_known_iff: "chars_known t \<longleftrightarrow> set t \<subseteq> alphabet"
  by (induction t) (auto simp: CHAR_TO_POS_None)

subsection \<open>The loop of decodeDigipin succeeds on a validated string\<close>

lemma decode_level_ok:
  assumes "level < length pin" "chars_known pin"
  shows "\<exists>c'. decode_level rnd pin level c = Inr c'"
proof -
  from assms have "pin ! level \<in> alphabet" by (auto simp: chars_known_iff)
  then obtain rc where "CHAR_TO_POS (pin ! level) = Some rc"
    using CHAR_TO_POS_None[of "pin ! level"] by auto
  then show ?thesis using assms(1)
    by (cases rc) (simp add: decode_level_def Let_def)
qed

lemma decode_loop_ok:
  "length pin = 10 \<Longrightarrow> chars_known pin \<Longrightarrow> \<exists>c'. decode_loop rnd pin level c = Inr c'"
proof (induction rnd pin level c rule: decode_loop.induct)
  case (1 rnd pin level c)
  show ?case
  proof (cases "level < 10")
    case True
    obtain c' where c': "decode_level rnd pin level c = Inr c'"
      using decode_level_ok[of level pin rnd c] True "1.prems" by auto
    from "1.IH"[OF True c' "1.prems"] obtain c'' where
      "decode_loop rnd pin (level + 1) c' = Inr c''" by auto
    then show ?thesis using True c' by (subst decode_loop.simps) simp
  next
    case False
    then show ?thesis by (subst decode_loop.simps) simp
  qed
qed

lemma decodeDigipin_valid:
  assumes "length (toUpperCase (replace_hyphens s)) = 10"
    and "chars_known (toUpperCase (replace_hyphens s))"
  shows "\<exists>d. decodeDigipin rnd s = Inr (Some d)"
proof -
  obtain c where "decode_loop rnd (toUpperCase (replace_hyphens s)) 0 INDIA = Inr c"
    using decode_loop_ok[OF assms, of rnd 0 INDIA] by auto
  with assms show ?thesis by (simp add: decodeDigipin_def Let_def)
qed

text \<open>
  C4. For every string \<open>s\<close>, with \<open>t\<close> the string \<open>s\<close> without its hyphens and
  upper-cased: \<open>decodeDigipin s\<close> returns \<^verbatim>\<open>null\<close> if and only if \<open>t\<close> is not exactly
  10 characters long or some character of \<open>t\<close> is outside the 16-symbol alphabet;
  \<open>isValidDigipin s\<close> is true in exactly the complementary cases, in which
  \<open>decodeDigipin\<close> returns an object; neither raises an exception.
\<close>

theorem validation_shared:
  "let t = toUpperCase (replace_hyphens s);
       invalid = (length t \<noteq> 10 \<or> (\<exists>c \<in> set t. c \<notin> alphabet))
   in (decodeDigipin rnd s = Inr None \<longleftrightarrow> invalid) \<and>
      (isValidDigipin s \<longleftrightarrow> \<not> invalid) \<and>
      (\<not> invalid \<longrightarrow> (\<exists>d. decodeDigipin rnd s = Inr (Some d))) \<and>
      decodeDigipin rnd s \<noteq> Inl TypeError"
proof -
  define t where "t = toUpperCase (replace_hyphens s)"
  have known: "chars_known t \<longleftrightarrow> \<not> (\<exists>c \<in> set t. c \<notin> alphabet)"
    by (auto simp: chars_known_iff)
  show ?thesis
  proof (cases "length t = 10 \<and> chars_known t")
    case True
    then obtain d where "decodeDigipin rnd s = Inr (Some d)"
      using decodeDigipin_valid[of s rnd] by (auto simp: t_def)
    with True known show ?thesis
      by (simp add: isValidDigipin_def Let_def t_def [symmetric])
  next
    case False
    with known show ?thesis
      by (auto simp: decodeDigipin_def isValidDigipin_def Let_def t_def [symmetric])
  qed
qed

theorem validation_shared_witness:
  "decodeDigipin exact ''4P3-JM8'' = Inr None \<and> \<not> isValidDigipin ''4P3-JM8'' \<and>
   decodeDigipin exact ''4P3-JM8-K4L1'' = Inr None \<and> \<not> isValidDigipin ''4P3-JM8-K4L1'' \<and>
   isValidDigipin ''4p3-jm8-k4l6'' \<and> decodeDigipin exact ''4p3-jm8-k4l6'' \<noteq> Inr None"
  using validation_shared [of "''4P3-JM8''" exact] validation_shared [of "''4P3-JM8-K4L1''" exact]
    validation_shared [of "''4p3-jm8-k4l6''" exact]
  by (simp add: Let_def toUpperCase_def toUpperChar_def replace_hyphens_def alphabet_def)

subsection \<open>formatDigipin\<close>

lemma slices_join:
  assumes "length t = 10"
  shows "slice 0 3 t @ slice 3 6 t @ slice 6 10 t = t"
proof -
  have a: "drop 6 t = drop 3 (drop 3 t)" by simp
  have b: "take 3 (drop 3 t) @ drop 6 t = drop 3 t"
    unfolding a by (rule append_take_drop_id)
  have c: "take 4 (drop 6 t) = drop 6 t" using assms by simp
  have "slice 0 3 t @ slice 3 6 t @ slice 6 10 t = take 3 t @ take 3 (drop 3 t) @ drop 6 t"
    using c by (simp add: slice_def)
  also have "\<dots> = t" unfolding b by (rule append_take_drop_id)
  finally show ?thesis .
qed

lemma normalize_hyphenated:
  assumes "length t = 10" "replace_hyphens t = t" "toUpperCase t = t"
  shows "toUpperCase (replace_hyphens
           (slice 0 3 t @ ''-'' @ slice 3 6 t @ ''-'' @ slice 6 10 t)) = t"
proof -
  have "replace_hyphens (slice 0 3 t @ ''-'' @ slice 3 6 t @ ''-'' @ slice 6 10 t)
      = replace_hyphens (slice 0 3 t @ slice 3 6 t @ slice 6 10 t)"
    by (simp add: replace_hyphens_def)
  then show ?thesis using assms by (simp add: slices_join)
qed

lemma remove_hyphens_free: "hyphen \<notin> set (remove_hyphens s)"
  by (simp add: remove_hyphens_def)

lemma remove_hyphens_id: "hyphen \<notin> set s \<Longrightarrow> remove_hyphens s = s"
  by (auto simp: remove_hyphens_def filter_id_conv)

lemma remove_hyphens_grouped:
  "remove_hyphens (slice 0 3 t @ [hyphen] @ slice 3 6 t @ [hyphen] @ slice 6 10 t) =
   remove_hyphens (slice 0 3 t @ slice 3 6 t @ slice 6 10 t)"
  by (simp add: remove_hyphens_def)

text \<open>The sample of the case table has the two properties.\<close>

lemma sample_upper_unit_idem: "sample_upper (sample_upper_unit u) = sample_upper_unit u"
  by (auto simp: sample_upper_def sample_upper_unit_def)

lemma sample_upper_append: "sample_upper (a @ b) = sample_upper a @ sample_upper b"
  by (simp add: sample_upper_def)

lemma sample_upper_idempotent: "upper_idempotent sample_upper"
proof -
  have "sample_upper (sample_upper s) = sample_upper s" for s
  proof (induction s)
    case Nil
    show ?case by (simp add: sample_upper_def)
  next
    case (Cons u s)
    have "sample_upper (u # s) = sample_upper_unit u @ sample_upper s"
      by (simp add: sample_upper_def)
    then show ?case by (simp add: sample_upper_append sample_upper_unit_idem Cons.IH)
  qed
  then show ?thesis by (simp add: upper_idempotent_def)
qed

lemma sample_upper_unit_hyphen: "hyphen \<in> set (sample_upper_unit u) \<longleftrightarrow> u = hyphen"
  by (auto simp: sample_upper_unit_def hyphen_def)

lemma sample_upper_makes_no_hyphen: "upper_makes_no_hyphen sample_upper"
  by (auto simp: upper_makes_no_hyphen_def sample_upper_def sample_upper_unit_hyphen)

text \<open>
  On strings of ASCII characters the two models of a string agree: deleting the hyphens
  and upper-casing with the sample of the case table are \<open>replace_hyphens\<close> and
  \<open>toUpperCase\<close> on the code units, and \<open>formatDigipin\<close> returns its argument or
  the code units of the hyphenated string.
\<close>

lemma of_char_hyphen: "of_char c = hyphen \<longleftrightarrow> c = CHR ''-''"
proof -
  have "of_char CHR ''-'' = hyphen" by (simp add: hyphen_def)
  then show ?thesis by (metis of_char_eq_iff)
qed

lemma units_replace_hyphens: "remove_hyphens (units s) = units (replace_hyphens s)"
  by (induction s) (simp_all add: remove_hyphens_def units_def replace_hyphens_def of_char_hyphen)

lemma lower_case_units:
  fixes n :: nat
  assumes "97 \<le> n" "n \<le> 122"
  shows "n \<in> of_char ` set ''abcdefghijklmnopqrstuvwxyz''"
proof -
  have "set [97..<123::nat] = of_char ` set ''abcdefghijklmnopqrstuvwxyz''"
    by (simp add: upt_rec)
  moreover have "n \<in> set [97..<123]"
    unfolding set_upt using assms by auto
  ultimately show ?thesis by (simp only:)
qed

lemma sample_upper_ascii_unit:
  assumes "of_char c < (128::nat)"
  shows "sample_upper_unit (of_char c) = [of_char (toUpperChar c)]"
proof (cases "c \<in> set ''abcdefghijklmnopqrstuvwxyz''")
  case True
  then show ?thesis by (auto simp: sample_upper_unit_def toUpperChar_def)
next
  case False
  then have u: "toUpperChar c = c" by (auto simp: toUpperChar_def split: option.splits)
  have "\<not> (97 \<le> (of_char c :: nat) \<and> (of_char c :: nat) \<le> 122)"
  proof
    assume "97 \<le> (of_char c :: nat) \<and> (of_char c :: nat) \<le> 122"
    then have "(of_char c :: nat) \<in> of_char ` set ''abcdefghijklmnopqrstuvwxyz''"
      using lower_case_units[of "of_char c"] by (simp only:)
    then obtain d where d: "d \<in> set ''abcdefghijklmnopqrstuvwxyz''"
      "(of_char c :: nat) = of_char d"
      by (rule imageE)
    from d(2) have "c = d" by (simp only: of_char_eq_iff)
    with d(1) False show False by blast
  qed
  then show ?thesis using assms by (auto simp: sample_upper_unit_def u)
qed

lemma sample_upper_ascii:
  assumes "\<forall>c\<in>set s. of_char c < (128::nat)"
  shows "sample_upper (units s) = units (toUpperCase s)"
  using assms
  by (induction s) (simp_all add: sample_upper_def units_def toUpperCase_def sample_upper_ascii_unit)

lemma units_slice: "slice a b (units s) = units (slice a b s)"
  by (simp add: slice_def units_def take_map drop_map)

lemma formatDigipin_ascii:
  assumes "\<forall>c\<in>set x. of_char c < (128::nat)"
  shows "formatDigipin sample_upper (units x) =
           units (let t = toUpperCase (replace_hyphens x)
                  in if length t \<noteq> 10 then x else hyphenate t)"
proof -
  have "\<forall>c\<in>set (replace_hyphens x). of_char c < (128::nat)"
    using assms by (simp add: replace_hyphens_def)
  then have n: "sample_upper (remove_hyphens (units x)) = units (toUpperCase (replace_hyphens x))"
    by (simp add: units_replace_hyphens sample_upper_ascii)
  have h: "[hyphen] = units ''-''" by (simp add: units_def hyphen_def)
  have l: "length (units t) = length t" for t by (simp add: units_def)
  show ?thesis
    unfolding formatDigipin_def n Let_def l hyphenate_def h units_slice
    by (simp add: units_def)
qed

text \<open>
  C7. For every string \<open>x\<close> and whatever the upper-casing of the runtime is, with \<open>t\<close>
  the string \<open>x\<close> without its hyphens and upper-cased: if \<open>t\<close> does not have length
  10, \<open>formatDigipin x\<close> is \<open>x\<close> itself; otherwise it is \<open>t\<close> with a hyphen after the
  3rd and after the 6th character: a string of 12 characters with hyphens at the positions
  3 and 7, from which \<open>t\<close> is recovered by deleting these two. \<open>formatDigipin\<close> is
  total: it returns a string for every string.
\<close>

theorem formatDigipin_spec:
  "let t = upper (remove_hyphens x); y = formatDigipin upper x
   in (length t \<noteq> 10 \<longrightarrow> y = x) \<and>
      (length t = 10 \<longrightarrow>
         y = take 3 t @ [hyphen] @ take 3 (drop 3 t) @ [hyphen] @ drop 6 t \<and>
         length y = 12 \<and> y ! 3 = hyphen \<and> y ! 7 = hyphen \<and>
         take 3 y @ take 3 (drop 4 y) @ drop 8 y = t)"
proof (cases "length (upper (remove_hyphens x)) = 10")
  case False
  then show ?thesis by (simp add: formatDigipin_def Let_def)
next
  case True
  define t where "t = upper (remove_hyphens x)"
  have len: "length t = 10" using True by (simp add: t_def)
  have y: "formatDigipin upper x = take 3 t @ [hyphen] @ take 3 (drop 3 t) @ [hyphen] @ drop 6 t"
    using len by (simp add: formatDigipin_def Let_def slice_def t_def [symmetric])
  have join: "take 3 t @ take 3 (drop 3 t) @ drop 6 t = t"
    using slices_join[OF len] len by (simp add: slice_def)
  have parts: "take 3 (take 3 t @ [hyphen] @ take 3 (drop 3 t) @ [hyphen] @ drop 6 t) = take 3 t"
    "take 3 (drop 4 (take 3 t @ [hyphen] @ take 3 (drop 3 t) @ [hyphen] @ drop 6 t))
       = take 3 (drop 3 t)"
    "drop 8 (take 3 t @ [hyphen] @ take 3 (drop 3 t) @ [hyphen] @ drop 6 t) = drop 6 t"
    using len by simp_all
  have nth: "(take 3 t @ [hyphen] @ take 3 (drop 3 t) @ [hyphen] @ drop 6 t) ! 3 = hyphen"
    "(take 3 t @ [hyphen] @ take 3 (drop 3 t) @ [hyphen] @ drop 6 t) ! 7 = hyphen"
    using len by (simp_all add: nth_append)
  show ?thesis
    unfolding Let_def t_def [symmetric] y parts nth join using len by simp
qed

theorem formatDigipin_spec_witness:
  "formatDigipin sample_upper (units ''4p3jm-8k4l6'') = units ''4P3-JM8-K4L6'' \<and>
   formatDigipin sample_upper (units ''4p3-jm8'') = units ''4p3-jm8'' \<and>
   formatDigipin sample_upper (223 # units ''FFFFFFFF'') = units ''SSF-FFF-FFFF'' \<and>
   formatDigipin sample_upper (233 # units ''FFFFFFFFF'') = 201 # units ''FF-FFF-FFFF'' \<and>
   formatDigipin sample_upper (64256 # units ''23456789'') = units ''FF2-345-6789''"
  using formatDigipin_spec [of sample_upper "units ''4p3jm-8k4l6''"]
    formatDigipin_spec [of sample_upper "units ''4p3-jm8''"]
    formatDigipin_spec [of sample_upper "223 # units ''FFFFFFFF''"]
    formatDigipin_spec [of sample_upper "233 # units ''FFFFFFFFF''"]
    formatDigipin_spec [of sample_upper "64256 # units ''23456789''"]
  by (simp add: Let_def sample_upper_def sample_upper_unit_def remove_hyphens_def units_def
      hyphen_def)

text \<open>
  C8. Formatting is idempotent:
  \<open>formatDigipin (formatDigipin x) = formatDigipin x\<close> for every string \<open>x\<close>, with
  every upper-casing that is idempotent and makes no hyphen, such as \<open>sample_upper\<close>,
  under which the sharp s makes a string of 9 characters one of 10.
\<close>

theorem formatDigipin_idem:
  assumes "upper_idempotent upper" and "upper_makes_no_hyphen upper"
  shows "formatDigipin upper (formatDigipin upper x) = formatDigipin upper x"
proof (cases "length (upper (remove_hyphens x)) = 10")
  case False
  then show ?thesis by (simp add: formatDigipin_def Let_def)
next
  case True
  define t where "t = upper (remove_hyphens x)"
  define y where "y = slice 0 3 t @ [hyphen] @ slice 3 6 t @ [hyphen] @ slice 6 10 t"
  have len: "length t = 10" using True by (simp add: t_def)
  have y: "formatDigipin upper x = y"
    using len by (simp add: formatDigipin_def Let_def t_def [symmetric] y_def)
  have free: "hyphen \<notin> set t"
    using assms(2) remove_hyphens_free[of x] by (simp add: upper_makes_no_hyphen_def t_def)
  have "remove_hyphens y = remove_hyphens t"
    unfolding y_def remove_hyphens_grouped slices_join[OF len] ..
  then have strip: "remove_hyphens y = t" using free by (simp add: remove_hyphens_id)
  have up: "upper t = t" using assms(1) by (simp add: upper_idempotent_def t_def)
  have "formatDigipin upper y = y"
    unfolding formatDigipin_def[of upper y] strip up Let_def using len by (simp add: y_def)
  then show ?thesis by (simp add: y)
qed

theorem formatDigipin_idem_witness:
  "formatDigipin sample_upper (formatDigipin sample_upper (units ''4p3jm-8k4l6''))
     = units ''4P3-JM8-K4L6'' \<and>
   formatDigipin sample_upper (formatDigipin sample_upper (units ''a-b'')) = units ''a-b'' \<and>
   formatDigipin sample_upper (223 # units ''FFFFFFFF'') = units ''SSF-FFF-FFFF'' \<and>
   formatDigipin sample_upper (formatDigipin sample_upper (223 # units ''FFFFFFFF''))
     = units ''SSF-FFF-FFFF''"
  using
    formatDigipin_idem [OF sample_upper_idempotent sample_upper_makes_no_hyphen,
      of "units ''4p3jm-8k4l6''"]
    formatDigipin_idem [OF sample_upper_idempotent sample_upper_makes_no_hyphen,
      of "units ''a-b''"]
    formatDigipin_idem [OF sample_upper_idempotent sample_upper_makes_no_hyphen,
      of "223 # units ''FFFFFFFF''"]
  by (simp add: formatDigipin_def Let_def sample_upper_def sample_upper_unit_def
      remove_hyphens_def units_def hyphen_def slice_def)

text \<open>
  C10. Parsing ignores the hyphens, wherever they are and however many, and the case of
  the letters: for every string \<open>s\<close>, with \<open>t\<close> the string \<open>s\<close> without its hyphens and
  upper-cased, \<open>decodeDigipin s = decodeDigipin t\<close> and
  \<open>isValidDigipin s = isValidDigipin t\<close>. In particular \<^verbatim>\<open>4-P-3JM8K4-L6\<close> and the
  lower-case \<^verbatim>\<open>4p3jm8k4l6\<close> are accepted and decode as \<^verbatim>\<open>4P3JM8K4L6\<close> does.
\<close>

theorem parse_insensitive:
  "(let t = toUpperCase (replace_hyphens s)
    in decodeDigipin rnd s = decodeDigipin rnd t \<and> isValidDigipin s = isValidDigipin t) \<and>
   isValidDigipin ''4-P-3JM8K4-L6'' \<and> isValidDigipin ''4p3jm8k4l6'' \<and>
   decodeDigipin rnd ''4-P-3JM8K4-L6'' = decodeDigipin rnd ''4P3JM8K4L6'' \<and>
   decodeDigipin rnd ''4p3jm8k4l6'' = decodeDigipin rnd ''4P3JM8K4L6'' \<and>
   (\<exists>d. decodeDigipin rnd ''4P3JM8K4L6'' = Inr (Some d))"
proof -
  have norm: "toUpperCase (replace_hyphens ''4-P-3JM8K4-L6'') = ''4P3JM8K4L6''"
    "toUpperCase (replace_hyphens ''4p3jm8k4l6'') = ''4P3JM8K4L6''"
    "toUpperCase (replace_hyphens ''4P3JM8K4L6'') = ''4P3JM8K4L6''"
    by (simp_all add: toUpperCase_def toUpperChar_def replace_hyphens_def)
  have known: "chars_known ''4P3JM8K4L6''"
    by (simp add: chars_known_iff alphabet_def)
  have general: "let t = toUpperCase (replace_hyphens s)
    in decodeDigipin rnd s = decodeDigipin rnd t \<and> isValidDigipin s = isValidDigipin t"
    by (simp add: Let_def decodeDigipin_def isValidDigipin_def normalize_idem)
  have accepted: "\<exists>d. decodeDigipin rnd ''4P3JM8K4L6'' = Inr (Some d)"
    using decodeDigipin_valid[of "''4P3JM8K4L6''" rnd] known by (simp add: norm)
  have same: "decodeDigipin rnd ''4-P-3JM8K4-L6'' = decodeDigipin rnd ''4P3JM8K4L6''"
    "decodeDigipin rnd ''4p3jm8k4l6'' = decodeDigipin rnd ''4P3JM8K4L6''"
    by (simp_all add: decodeDigipin_def norm)
  have valid: "isValidDigipin ''4-P-3JM8K4-L6''" "isValidDigipin ''4p3jm8k4l6''"
    using known by (simp_all add: isValidDigipin_def norm)
  from general accepted same valid show ?thesis by blast
qed

section \<open>Rounding\<close>

text \<open>
  The rounding of a numeral is computed by unfolding the definition. The examples are the
  familiar double-precision values of \<open>0.1\<close>, \<open>1 / 3\<close> and \<open>0.1 + 0.2\<close> (which is
  not the double nearest to \<open>0.3\<close>), and two ties above \<open>2 ^ 53\<close>.
\<close>

lemmas binary64_eval = binary64_def ilog2_def compute_bitlen round_half_even_def Let_def
  power_int_minus

lemma binary64_examples:
  "binary64 (1 / 10) = 3602879701896397 / 2 ^ 55"
  "binary64 (1 / 3) = 6004799503160661 / 2 ^ 54"
  "binary64 (binary64 (1 / 10) + binary64 (2 / 10)) = 1351079888211149 / 2 ^ 52"
  "binary64 (3 / 10) = 5404319552844595 / 2 ^ 54"
  "binary64 (2 ^ 53 + 1) = 2 ^ 53"
  "binary64 (2 ^ 53 + 3) = 2 ^ 53 + 4"
  "binary64 (- (1 / 3)) = - (6004799503160661 / 2 ^ 54)"
  by (simp_all add: binary64_eval)

text \<open>
  \<open>binary64\<close> returns every number \<open>m * 2 ^ j\<close> with \<open>\<bar>m\<bar> < 2 ^ 53\<close> unchanged, in
  particular every number on the grid.
\<close>

lemma ilog2_lower:
  assumes "0 < y"
  shows "2 powi (ilog2 y) \<le> y"
proof (cases "1 \<le> y")
  case True
  then have pos: "0 < \<lfloor>y\<rfloor>" by linarith
  from bitlen_bounds[OF pos] have "2 ^ nat (bitlen \<lfloor>y\<rfloor> - 1) \<le> \<lfloor>y\<rfloor>" by simp
  then have "(2::real) ^ nat (bitlen \<lfloor>y\<rfloor> - 1) \<le> of_int \<lfloor>y\<rfloor>"
    by (metis of_int_le_iff of_int_numeral of_int_power)
  also have "\<dots> \<le> y" by simp
  finally have "(2::real) ^ nat (bitlen \<lfloor>y\<rfloor> - 1) \<le> y" .
  moreover have "0 \<le> bitlen \<lfloor>y\<rfloor> - 1" using pos bitlen_eq_zero_iff[of "\<lfloor>y\<rfloor>"] bitlen_nonneg[of "\<lfloor>y\<rfloor>"] by linarith
  ultimately show ?thesis using True by (simp add: ilog2_def power_int_def)
next
  case False
  define n where "n = \<lceil>1 / y\<rceil> - 1"
  have z: "1 < 1 / y" using False assms by simp
  then have pos: "0 < n" unfolding n_def by linarith
  from bitlen_bounds[OF pos] have "n < 2 ^ nat (bitlen n)" by simp
  then have "n + 1 \<le> 2 ^ nat (bitlen n)" by simp
  then have "of_int (n + 1) \<le> (2::real) ^ nat (bitlen n)"
    by (metis of_int_le_iff of_int_numeral of_int_power)
  moreover have "1 / y \<le> of_int (n + 1)" unfolding n_def by simp
  ultimately have "1 / y \<le> 2 ^ nat (bitlen n)" by linarith
  then have "1 / 2 ^ nat (bitlen n) \<le> y" using assms
    by (simp add: field_simps)
  moreover have "0 < bitlen n"
    using pos bitlen_eq_zero_iff[of n] bitlen_nonneg[of n] by linarith
  ultimately show ?thesis using False
    by (simp add: ilog2_def n_def power_int_def field_simps)
qed

lemma round_half_even_of_int: "round_half_even (of_int m) = m"
  by (simp add: round_half_even_def)

lemma binary64_exact:
  assumes x: "x = of_int m * 2 powi j" and m: "\<bar>m\<bar> < 2 ^ 53" and j: "- 1074 \<le> j"
  shows "binary64 x = x"
proof (cases "x = 0")
  case True
  then show ?thesis by (simp add: binary64_def)
next
  case False
  define e where "e = max (ilog2 \<bar>x\<bar>) (- 1022)"
  define u :: real where "u = 2 powi (e - 52)"
  have upos: "0 < u" by (simp add: u_def zero_less_power_int)
  have "\<bar>x\<bar> = \<bar>of_int m\<bar> * 2 powi j"
    by (simp add: x abs_mult)
  moreover have "\<bar>of_int m :: real\<bar> < 2 ^ 53"
    using m by (metis of_int_abs of_int_less_iff of_int_numeral of_int_power)
  ultimately have "\<bar>x\<bar> < 2 ^ 53 * 2 powi j"
    by (simp add: zero_less_power_int)
  also have "\<dots> = 2 powi (53 + j)"
    by (simp add: power_int_add)
  finally have lt: "\<bar>x\<bar> < 2 powi (53 + j)" .
  have "2 powi (ilog2 \<bar>x\<bar>) \<le> \<bar>x\<bar>"
    using False by (intro ilog2_lower) simp
  with lt have "(2::real) powi (ilog2 \<bar>x\<bar>) < 2 powi (53 + j)" by linarith
  then have "ilog2 \<bar>x\<bar> < 53 + j"
    using power_int_increasing[of "53 + j" "ilog2 \<bar>x\<bar>" "2::real"] by (cases "ilog2 \<bar>x\<bar> < 53 + j") auto
  with j have ej: "e - 52 \<le> j" by (simp add: e_def)
  define d where "d = nat (j - (e - 52))"
  have "(2::real) powi j = 2 powi (int d + (e - 52))"
    using ej by (simp add: d_def)
  also have "\<dots> = 2 ^ d * u"
    by (simp add: power_int_add u_def)
  finally have pj: "(2::real) powi j = 2 ^ d * u" .
  have "x / u = of_int (m * 2 ^ d)"
    using upos by (simp add: x pj)
  then have "round_half_even (x / u) = m * 2 ^ d"
    by (simp only: round_half_even_of_int)
  then have "of_int (round_half_even (x / u)) * u = x"
    by (simp add: x pj)
  then show ?thesis
    using False by (simp add: binary64_def Let_def e_def u_def)
qed

lemma on_grid_binary64:
  assumes "on_grid x"
  shows "binary64 x = x"
proof -
  from assms obtain n :: int where n: "x * 2 ^ 20 = of_int n"
    by (auto simp: on_grid_def Ints_def)
  then have x: "x = of_int n * 2 powi (- 20)"
    by (simp add: power_int_minus field_simps)
  have "\<bar>of_int n :: real\<bar> = \<bar>x\<bar> * 2 ^ 20" using n by (simp add: abs_mult flip: n)
  also have "\<dots> < 256 * 2 ^ 20" using assms by (simp add: on_grid_def)
  finally have "\<bar>of_int n :: real\<bar> < 2 ^ 53" by simp
  then have "\<bar>n\<bar> < 2 ^ 53"
    by (metis of_int_abs of_int_less_iff of_int_numeral of_int_power)
  from binary64_exact[OF x this] show ?thesis by simp
qed

lemma grid_exact_binary64: "grid_exact binary64"
  by (simp add: grid_exact_def on_grid_binary64)

lemma grid_exact_exact: "grid_exact exact"
  by (simp add: grid_exact_def exact_def)

lemma grid_multiple:
  assumes "k \<le> 10"
  shows "of_nat n * (36 / 4 ^ k) * 2 ^ 20 \<in> (\<int> :: real set)"
proof -
  have "(4::real) ^ 10 = 4 ^ k * 4 ^ (10 - k)"
    using assms by (simp flip: power_add)
  then have e: "(2::real) ^ 20 = 4 ^ k * 4 ^ (10 - k)" by simp
  have "of_nat n * (36 / 4 ^ k) * (4 ^ k * 4 ^ (10 - k)) = (of_nat (n * 36 * 4 ^ (10 - k)) :: real)"
    by simp
  then show ?thesis unfolding e by (simp only: Ints_of_nat)
qed

lemma multiple_bound:
  assumes "n \<le> 4 ^ k"
  shows "0 \<le> of_nat n * (36 / 4 ^ k :: real)" "of_nat n * (36 / 4 ^ k :: real) \<le> 36"
proof -
  show "0 \<le> of_nat n * (36 / 4 ^ k :: real)" by simp
  have "(of_nat n :: real) \<le> 4 ^ k" using assms
    by (metis of_nat_le_iff of_nat_numeral of_nat_power)
  then have "of_nat n / (4 ^ k :: real) \<le> 1" by (simp add: divide_le_eq)
  then have "36 * (of_nat n / (4 ^ k :: real)) \<le> 36 * 1" by (intro mult_left_mono) simp_all
  then show "of_nat n * (36 / 4 ^ k :: real) \<le> 36" by (simp add: field_simps)
qed

lemma on_grid_unit:
  assumes "k \<le> 10" "n \<le> 4"
  shows "on_grid (of_nat n * (36 / 4 ^ k))"
proof -
  have "of_nat n * (36 / 4 ^ k :: real) \<le> 4 * (36 / 4 ^ k)"
    using assms(2) by (intro mult_right_mono) simp_all
  also have "\<dots> \<le> 4 * 36" by (simp add: divide_le_eq)
  finally have "\<bar>of_nat n * (36 / 4 ^ k :: real)\<bar> < 256" by simp
  then show ?thesis using grid_multiple[OF assms(1), of n] by (simp add: on_grid_def)
qed

lemma on_grid_lat:
  assumes "k \<le> 10" "n \<le> 4 ^ k"
  shows "on_grid (MAX_LAT - of_nat n * (36 / 4 ^ k))"
proof -
  have "(MAX_LAT - of_nat n * (36 / 4 ^ k)) * 2 ^ 20 = 40370176 - of_nat n * (36 / 4 ^ k) * 2 ^ 20"
    by (simp add: MAX_LAT_def algebra_simps)
  moreover have "(40370176 :: real) \<in> \<int>" by simp
  ultimately have "(MAX_LAT - of_nat n * (36 / 4 ^ k)) * 2 ^ 20 \<in> \<int>"
    using grid_multiple[OF assms(1), of n] by (simp only: Ints_diff)
  moreover have "\<bar>MAX_LAT - of_nat n * (36 / 4 ^ k)\<bar> < 256"
  proof -
    define t :: real where "t = of_nat n * (36 / 4 ^ k)"
    have "0 \<le> t" "t \<le> 36" unfolding t_def by (rule multiple_bound[OF assms(2)])+
    then have "\<bar>MAX_LAT - t\<bar> < 256" by (simp add: MAX_LAT_def abs_if)
    then show ?thesis by (simp only: t_def)
  qed
  ultimately show ?thesis by (simp add: on_grid_def)
qed

lemma on_grid_lon:
  assumes "k \<le> 10" "n \<le> 4 ^ k"
  shows "on_grid (MIN_LON + of_nat n * (36 / 4 ^ k))"
proof -
  have "(MIN_LON + of_nat n * (36 / 4 ^ k)) * 2 ^ 20 = 66584576 + of_nat n * (36 / 4 ^ k) * 2 ^ 20"
    by (simp add: MIN_LON_def algebra_simps)
  moreover have "(66584576 :: real) \<in> \<int>" by simp
  ultimately have "(MIN_LON + of_nat n * (36 / 4 ^ k)) * 2 ^ 20 \<in> \<int>"
    using grid_multiple[OF assms(1), of n] by (simp only: Ints_add)
  moreover have "\<bar>MIN_LON + of_nat n * (36 / 4 ^ k)\<bar> < 256"
  proof -
    define t :: real where "t = of_nat n * (36 / 4 ^ k)"
    have "0 \<le> t" "t \<le> 36" unfolding t_def by (rule multiple_bound[OF assms(2)])+
    then have "\<bar>MIN_LON + t\<bar> < 256" by (simp add: MIN_LON_def abs_if)
    then show ?thesis by (simp only: t_def)
  qed
  ultimately show ?thesis by (simp add: on_grid_def)
qed

lemma on_grid_small_nat: "n \<le> 4 \<Longrightarrow> on_grid (of_nat n)"
proof -
  assume "n \<le> 4"
  then have "\<bar>of_nat n :: real\<bar> < 256" by simp
  moreover have "(of_nat n :: real) * 2 ^ 20 = of_nat (n * 2 ^ 20)" by simp
  then have "(of_nat n :: real) * 2 ^ 20 \<in> \<int>" by (simp only: Ints_of_nat)
  ultimately show ?thesis by (simp add: on_grid_def)
qed




lemma accurate_exact: "accurate exact"
  by (simp add: accurate_def exact_def)

text \<open>
  The quotient \<^verbatim>\<open>(maxLat - lat) / latDiv\<close> is computed with two roundings. If the exact
  difference \<open>D\<close> keeps the distance \<open>margin\<close> from the multiples \<open>n * h\<close> and
  \<open>(n + 1) * h\<close> of the divisor, then the floor of the rounded quotient is \<open>n\<close>, as
  that of the exact quotient: the two relative errors of \<open>2 ^ -53\<close> move a quotient,
  which is at most 4, by less than \<open>2 ^ -49\<close>, and \<open>margin / h\<close> is larger since
  \<open>h \<le> 9\<close>.
\<close>

lemma floor_rounded:
  fixes D h :: real
  assumes acc: "accurate rnd" and h: "0 < h" "h \<le> 9" and n: "n < 4"
    and lo: "of_nat n * h + margin \<le> D" and hi: "D \<le> (of_nat n + 1) * h - margin"
  shows "min 3 (max 0 \<lfloor>rnd (rnd D / h)\<rfloor>) = int n"
proof -
  note a = acc[unfolded accurate_def, rule_format]
  have tiny: "(2::real) powi (- 1022) \<le> 1 / 2 ^ 60"
  proof -
    have "(2::real) powi (- 1022) \<le> 2 powi (- 60)"
      by (rule power_int_increasing) simp_all
    then show ?thesis by (simp add: power_int_minus)
  qed
  define N :: real where "N = of_nat n"
  have N: "0 \<le> N" "N \<le> 3" using n by (simp_all add: N_def)
  define q where "q = D / h"
  define mu where "mu = margin / h"
  have mu: "1 / (9 * 2 ^ 45) \<le> mu"
    unfolding mu_def margin_def using h by (simp add: field_simps)
  have "(N * h + margin) / h \<le> D / h" "D / h \<le> ((N + 1) * h - margin) / h"
    using lo hi h unfolding N_def by (simp_all only: divide_right_mono less_imp_le)
  moreover have "(N * h + margin) / h = N + mu" "((N + 1) * h - margin) / h = N + 1 - mu"
    using h by (simp_all add: mu_def add_divide_distrib diff_divide_distrib)
  ultimately have qlo: "N + mu \<le> q" and qhi: "q \<le> N + 1 - mu"
    by (simp_all add: q_def)
  have pw: "(2::real) ^ 45 = 35184372088832" "(2::real) ^ 53 = 9007199254740992"
    "(2::real) ^ 60 = 1152921504606846976" by simp_all
  note mu = mu[unfolded pw]
  have mu0: "0 < mu" using mu by simp
  have q4: "q \<le> 4" "1 / (9 * 35184372088832) \<le> q" using qlo qhi N mu mu0 by linarith+
  have Dq: "D = q * h" using h by (simp add: q_def)
  have "0 < q" using qlo N mu0 by linarith
  then have Dpos: "0 < D" using h unfolding Dq by (simp add: zero_less_mult_iff)
  have "0 \<le> of_nat n * h" using h by simp
  then have Dlow: "1 / 2 ^ 45 \<le> D" using lo unfolding margin_def by linarith
  have "2 powi (- 1022) \<le> \<bar>D\<bar>" using tiny Dlow by (simp add: abs_if) 
  from a[OF this] have e1: "\<bar>rnd D - D\<bar> \<le> D / 2 ^ 53" using Dpos by simp
  define q1 where "q1 = rnd D / h"
  have "q1 - q = (rnd D - D) / h" by (simp add: q1_def q_def diff_divide_distrib)
  then have "\<bar>q1 - q\<bar> = \<bar>rnd D - D\<bar> / h" using h by (simp add: abs_divide)
  also have "\<dots> \<le> (D / 2 ^ 53) / h" using e1 h(1) by (simp only: divide_right_mono less_imp_le)
  also have "\<dots> = q / 2 ^ 53" by (simp add: q_def)
  finally have d1: "\<bar>q1 - q\<bar> \<le> q / 2 ^ 53" .
  note d1 = d1[unfolded pw] and tiny = tiny[unfolded pw]
  have q1b: "q1 \<le> 5" "1 / 1152921504606846976 \<le> q1" using d1 q4 by linarith+
  have "2 powi (- 1022) \<le> \<bar>q1\<bar>" using tiny q1b(2) by (simp add: abs_if)
  from a[OF this] have e2: "\<bar>rnd q1 - q1\<bar> \<le> q1 / 9007199254740992" using q1b(2) by (simp add: abs_if)
  have "N < rnd q1" "rnd q1 < N + 1"
    using e2 d1 q1b q4 qlo qhi mu by linarith+
  then have "\<lfloor>rnd q1\<rfloor> = int n" unfolding N_def by (simp add: floor_eq_iff)
  then show ?thesis using n by (simp add: q1_def)
qed

section \<open>The loop of encodeDigipin\<close>

subsection \<open>One level\<close>

lemma lt4_cases: "n < 4 \<Longrightarrow> n = 0 \<or> n = 1 \<or> n = 2 \<or> n = (3::nat)"
  by arith

lemma CHAR_TO_POS_symbol_at:
  assumes "row < 4" "col < 4"
  shows "CHAR_TO_POS (symbol_at row col) = Some (row, col)"
proof -
  have "\<forall>col<4. CHAR_TO_POS (symbol_at r col) = Some (r, col)" if "r = 0 \<or> r = 1 \<or> r = 2 \<or> r = 3" for r
    using that
    by (elim disjE; simp add: All_less_Suc numeral_eq_Suc CHAR_TO_POS_eval symbol_at_def DIGIPIN_GRID_def)
  with lt4_cases[OF assms(1)] assms(2) show ?thesis by blast
qed

lemma symbol_at_alphabet:
  assumes "row < 4" "col < 4"
  shows "symbol_at row col \<in> alphabet"
  using CHAR_TO_POS_symbol_at[OF assms] CHAR_TO_POS_None[of "symbol_at row col"] by auto

lemma CHAR_TO_POS_Some:
  assumes "CHAR_TO_POS ch = Some (row, col)"
  shows "row < 4" "col < 4" "symbol_at row col = ch"
proof -
  have "\<forall>ch\<in>alphabet. case CHAR_TO_POS ch of None \<Rightarrow> False
          | Some (r, c) \<Rightarrow> r < 4 \<and> c < 4 \<and> symbol_at r c = ch"
    unfolding alphabet_def by (simp add: CHAR_TO_POS_eval symbol_at_def DIGIPIN_GRID_def)
  moreover have "ch \<in> alphabet" using assms CHAR_TO_POS_None[of ch] by auto
  ultimately show "row < 4" "col < 4" "symbol_at row col = ch" using assms by fastforce+
qed

lemma encode_row_range: "0 \<le> encode_row rnd lat c \<and> encode_row rnd lat c \<le> 3"
  by (simp add: encode_row_def Let_def)

lemma encode_col_range: "0 \<le> encode_col rnd lon c \<and> encode_col rnd lon c \<le> 3"
  by (simp add: encode_col_def Let_def)

lemma grid_lookup_in_range:
  assumes "0 \<le> row" "row \<le> 3" "0 \<le> col" "col \<le> 3"
  shows "grid_lookup row col = Inr [symbol_at (nat row) (nat col)]"
proof -
  have "nat row < 4" using assms by simp
  from lt4_cases[OF this] assms show ?thesis
    by (auto simp: grid_lookup_def symbol_at_def DIGIPIN_GRID_def Let_def)
qed

lemma encode_level_eq:
  "encode_level rnd lat lon (c, d) =
     Inr (narrow rnd c (nat (encode_row rnd lat c)) (nat (encode_col rnd lon c)),
          d @ [symbol_at (nat (encode_row rnd lat c)) (nat (encode_col rnd lon c))])"
  using encode_row_range[of rnd lat c] encode_col_range[of rnd lon c]
  by (simp add: encode_level_def grid_lookup_in_range narrow_def Let_def)

lemma decode_level_eq:
  assumes "level < length pin" "CHAR_TO_POS (pin ! level) = Some (row, col)"
  shows "decode_level rnd pin level c = Inr (narrow rnd c row col)"
  using assms by (simp add: decode_level_def narrow_def Let_def)

subsection \<open>Ten levels, and the loop of decodeDigipin on the result\<close>

text \<open>
  Whatever the rounding, the loop appends one symbol of the alphabet per level, and the
  loop of \<^verbatim>\<open>decodeDigipin\<close> on these symbols goes through the same rectangles.
\<close>

lemma encode_loop_ok:
  "level \<le> 10 \<Longrightarrow>
   \<exists>c' t. encode_loop rnd lat lon level st = Inr (c', snd st @ t) \<and>
          length t = 10 - level \<and> set t \<subseteq> alphabet \<and>
          (\<forall>pin. length pin = 10 \<and> drop level pin = t \<longrightarrow>
                 decode_loop rnd pin level (fst st) = Inr c')"
proof (induction rnd lat lon level st rule: encode_loop.induct)
  case (1 rnd lat lon level st)
  show ?case
  proof (cases "level < 10")
    case False
    with "1.prems" have "level = 10" by simp
    then show ?thesis
      by (cases st) (simp add: encode_loop.simps[of _ _ _ 10] decode_loop.simps[of _ _ 10])
  next
    case True
    obtain c d where st: "st = (c, d)" by (cases st)
    define row where "row = nat (encode_row rnd lat c)"
    define col where "col = nat (encode_col rnd lon c)"
    have rc: "row < 4" "col < 4"
      using encode_row_range[of rnd lat c] encode_col_range[of rnd lon c]
      unfolding row_def col_def by linarith+
    have lev: "encode_level rnd lat lon st = Inr (narrow rnd c row col, d @ [symbol_at row col])"
      by (simp add: st encode_level_eq row_def col_def)
    from "1.IH"[OF True lev] True obtain c' t where
      enc: "encode_loop rnd lat lon (level + 1) (narrow rnd c row col, d @ [symbol_at row col])
            = Inr (c', (d @ [symbol_at row col]) @ t)"
      and len: "length t = 10 - (level + 1)" and alph: "set t \<subseteq> alphabet"
      and dec: "\<forall>pin. length pin = 10 \<and> drop (level + 1) pin = t \<longrightarrow>
                 decode_loop rnd pin (level + 1) (narrow rnd c row col) = Inr c'"
      by auto
    have e: "encode_loop rnd lat lon level st = Inr (c', snd st @ (symbol_at row col # t))"
      using True lev enc by (subst encode_loop.simps) (simp add: st)
    have l: "length (symbol_at row col # t) = 10 - level" using len True by simp
    have a: "set (symbol_at row col # t) \<subseteq> alphabet"
      using alph symbol_at_alphabet[OF rc] by simp
    have d: "decode_loop rnd pin level (fst st) = Inr c'"
      if pin: "length pin = 10" "drop level pin = symbol_at row col # t" for pin
    proof -
      have lt: "level < length pin" using pin True by simp
      have "pin ! level = symbol_at row col"
        using pin(2) lt by (metis Cons_nth_drop_Suc list.inject)
      moreover have "drop (level + 1) pin = t"
        using pin(2) lt by (metis Cons_nth_drop_Suc list.inject Suc_eq_plus1)
      ultimately show ?thesis
        using dec pin(1) True lt decode_level_eq[of level pin row col rnd c]
          CHAR_TO_POS_symbol_at[OF rc]
        by (subst decode_loop.simps) (simp add: st)
    qed
    from e l a d show ?thesis by blast
  qed
qed

lemma alphabet_chars: "\<forall>c\<in>alphabet. toUpperChar c = c \<and> c \<noteq> CHR ''-''"
  unfolding alphabet_def by (simp add: toUpperChar_def)

lemma symbols_normal:
  assumes "set t \<subseteq> alphabet"
  shows "replace_hyphens t = t" "toUpperCase t = t"
  using assms alphabet_chars
  by (induction t) (simp_all add: replace_hyphens_def toUpperCase_def)

lemma hyphenate_normal:
  assumes "length t = 10" "set t \<subseteq> alphabet"
  shows "toUpperCase (replace_hyphens (hyphenate t)) = t"
  unfolding hyphenate_def using normalize_hyphenated[OF assms(1) symbols_normal[OF assms(2)]] .

lemma hyphenate_shape:
  assumes "length t = 10"
  shows "hyphenate t = take 3 t @ ''-'' @ take 3 (drop 3 t) @ ''-'' @ drop 6 t"
    and "length (hyphenate t) = 12"
  using assms by (simp_all add: hyphenate_def slice_def)

lemma encode_decode_link:
  assumes "\<not> (lat < MIN_LAT \<or> lat > MAX_LAT \<or> lon < MIN_LON \<or> lon > MAX_LON)"
  shows "\<exists>c' t. encode_loop rnd lat lon 0 (INDIA, '''') = Inr (c', t) \<and>
           length t = 10 \<and> set t \<subseteq> alphabet \<and>
           encodeDigipin rnd lat lon = Inr (Some (hyphenate t)) \<and>
           decodeDigipin rnd (hyphenate t) =
             Inr (Some \<lparr>center_lat = num_div rnd (num_add rnd (minLat c') (maxLat c')) 2,
                        center_lon = num_div rnd (num_add rnd (minLon c') (maxLon c')) 2,
                        bounds = c'\<rparr>)"
proof -
  from encode_loop_ok[of 0 rnd lat lon "(INDIA, '''')"] obtain c' t where
    enc: "encode_loop rnd lat lon 0 (INDIA, '''') = Inr (c', t)"
    and len: "length t = 10" and alph: "set t \<subseteq> alphabet"
    and dec: "\<forall>pin. length pin = 10 \<and> drop 0 pin = t \<longrightarrow> decode_loop rnd pin 0 INDIA = Inr c'"
    by auto
  have e: "encodeDigipin rnd lat lon = Inr (Some (hyphenate t))"
    using assms enc by (simp add: encodeDigipin_def hyphenate_def)
  have n: "toUpperCase (replace_hyphens (hyphenate t)) = t"
    by (rule hyphenate_normal[OF len alph])
  have "decode_loop rnd t 0 INDIA = Inr c'" using dec len by simp
  then have d: "decodeDigipin rnd (hyphenate t) =
             Inr (Some \<lparr>center_lat = num_div rnd (num_add rnd (minLat c') (maxLat c')) 2,
                        center_lon = num_div rnd (num_add rnd (minLon c') (maxLon c')) 2,
                        bounds = c'\<rparr>)"
    using len alph by (simp add: decodeDigipin_def n chars_known_iff)
  from enc len alph e d show ?thesis by blast
qed

text \<open>
  C3. For every pair \<open>(lat, lon)\<close> of real numbers, \<open>encodeDigipin\<close> returns \<^verbatim>\<open>null\<close>
  if and only if \<open>lat < 2.5\<close> or \<open>lat > 38.5\<close> or \<open>lon < 63.5\<close> or \<open>lon > 99.5\<close>,
  which is exactly when \<open>isWithinBounds\<close> is false; \<open>encodeDigipin 0 0\<close> is
  \<^verbatim>\<open>null\<close>; and no exception is raised in either case. This holds for every rounding.
\<close>

theorem out_of_range_rejection:
  "(encodeDigipin rnd lat lon = Inr None \<longleftrightarrow> lat < 2.5 \<or> lat > 38.5 \<or> lon < 63.5 \<or> lon > 99.5) \<and>
   (encodeDigipin rnd lat lon = Inr None \<longleftrightarrow> \<not> isWithinBounds lat lon) \<and>
   encodeDigipin rnd 0 0 = Inr None \<and>
   encodeDigipin rnd lat lon \<noteq> Inl TypeError"
proof (cases "lat < MIN_LAT \<or> lat > MAX_LAT \<or> lon < MIN_LON \<or> lon > MAX_LON")
  case True
  then have "encodeDigipin rnd lat lon = Inr None" by (simp add: encodeDigipin_def)
  moreover have "encodeDigipin rnd 0 0 = Inr None" by (simp add: encodeDigipin_def MIN_LAT_def)
  ultimately show ?thesis using True
    by (auto simp: isWithinBounds_def MIN_LAT_def MAX_LAT_def MIN_LON_def MAX_LON_def)
next
  case False
  from encode_decode_link[OF False, of rnd] obtain t where
    "encodeDigipin rnd lat lon = Inr (Some (hyphenate t))" by blast
  moreover have "encodeDigipin rnd 0 0 = Inr None" by (simp add: encodeDigipin_def MIN_LAT_def)
  ultimately show ?thesis using False
    by (auto simp: isWithinBounds_def MIN_LAT_def MAX_LAT_def MIN_LON_def MAX_LON_def)
qed

theorem out_of_range_rejection_witness:
  "encodeDigipin binary64 0 0 = Inr None \<and> encodeDigipin binary64 38.6 80 = Inr None \<and>
   encodeDigipin binary64 20 80 \<noteq> Inr None \<and> encodeDigipin binary64 20 80 \<noteq> Inl TypeError \<and>
   encodeDigipin binary64 2.5 99.5 \<noteq> Inr None"
  using out_of_range_rejection [of binary64 0 0] out_of_range_rejection [of binary64 "38.6" 80]
    out_of_range_rejection [of binary64 20 80] out_of_range_rejection [of binary64 "2.5" "99.5"]
  by simp

text \<open>
  C6. For every pair \<open>(lat, lon)\<close> within the bounds, \<open>encodeDigipin\<close> returns a string
  of 12 characters: 10 symbols of the alphabet with a hyphen after the 3rd and after the 6th
  symbol; \<open>isValidDigipin\<close> accepts it. This holds for every rounding.
\<close>

theorem encode_format:
  assumes "2.5 \<le> lat" "lat \<le> 38.5" "63.5 \<le> lon" "lon \<le> 99.5"
  shows "\<exists>t. length t = 10 \<and> set t \<subseteq> alphabet \<and>
             encodeDigipin rnd lat lon =
               Inr (Some (take 3 t @ ''-'' @ take 3 (drop 3 t) @ ''-'' @ drop 6 t)) \<and>
             length (take 3 t @ ''-'' @ take 3 (drop 3 t) @ ''-'' @ drop 6 t) = 12 \<and>
             isValidDigipin (take 3 t @ ''-'' @ take 3 (drop 3 t) @ ''-'' @ drop 6 t)"
proof -
  have "\<not> (lat < MIN_LAT \<or> lat > MAX_LAT \<or> lon < MIN_LON \<or> lon > MAX_LON)"
    using assms by (simp add: MIN_LAT_def MAX_LAT_def MIN_LON_def MAX_LON_def)
  from encode_decode_link[OF this, of rnd] obtain t where
    len: "length t = 10" and alph: "set t \<subseteq> alphabet"
    and e: "encodeDigipin rnd lat lon = Inr (Some (hyphenate t))" by blast
  have "isValidDigipin (hyphenate t)"
    using len alph by (simp add: isValidDigipin_def hyphenate_normal chars_known_iff)
  with len alph e show ?thesis
    unfolding hyphenate_shape(1)[OF len] by (intro exI[of _ t]) simp
qed

theorem encode_format_witness:
  "\<exists>t. length t = 10 \<and> set t \<subseteq> alphabet \<and>
       encodeDigipin binary64 20 80 =
         Inr (Some (take 3 t @ ''-'' @ take 3 (drop 3 t) @ ''-'' @ drop 6 t)) \<and>
       length (take 3 t @ ''-'' @ take 3 (drop 3 t) @ ''-'' @ drop 6 t) = 12 \<and>
       isValidDigipin (take 3 t @ ''-'' @ take 3 (drop 3 t) @ ''-'' @ drop 6 t)"
  using encode_format [of 20 80 binary64] by simp

section \<open>The cells of the grid\<close>

text \<open>
  With a rounding that is exact on the grid, narrowing a cell of level \<open>k\<close> gives a cell
  of level \<open>k + 1\<close>, without any rounding error, and the divisors \<^verbatim>\<open>latDiv\<close> and
  \<^verbatim>\<open>lonDiv\<close> are \<open>36 / 4 ^ (k + 1)\<close>: no division by zero occurs in the loops, so that
  no operation produces NaN or an infinity.
\<close>

lemma INDIA_cell: "INDIA = cell 0 0 0"
  by (simp add: INDIA_def cell_def MIN_LAT_def MAX_LAT_def MIN_LON_def MAX_LON_def)

lemma narrow_cell:
  assumes ex: "grid_exact rnd" and k: "k < 10" and R: "R < 4 ^ k" and C: "C < 4 ^ k"
    and row: "row < 4" and col: "col < 4"
  shows "narrow rnd (cell k R C) row col = cell (Suc k) (4 * R + row) (4 * C + col)"
proof -
  define w :: real where "w = 36 / 4 ^ k"
  define w' :: real where "w' = 36 / 4 ^ Suc k"
  define c where "c = cell k R C"
  have ww: "w = 4 * w'" by (simp add: w_def w'_def)
  note rn = ex[unfolded grid_exact_def, rule_format]
  have Rn: "4 * R + row \<le> 4 ^ Suc k" "4 * R + row + 1 \<le> 4 ^ Suc k"
    using R row by simp_all
  have Cn: "4 * C + col \<le> 4 ^ Suc k" "4 * C + col + 1 \<le> 4 ^ Suc k"
    using C col by simp_all
  have k': "Suc k \<le> 10" "k \<le> 10" using k by simp_all
  have f: "minLat c = MAX_LAT - (of_nat R + 1) * w" "maxLat c = MAX_LAT - of_nat R * w"
    "minLon c = MIN_LON + of_nat C * w" "maxLon c = MIN_LON + (of_nat C + 1) * w"
    by (simp_all add: c_def cell_def w_def)
  have gw: "rnd w = w" "rnd w' = w'"
    using rn[OF on_grid_unit[OF k'(2), of 1]] rn[OF on_grid_unit[OF k'(1), of 1]]
    by (simp_all add: w_def w'_def)
  have latDiv: "num_div rnd (num_sub rnd (maxLat c) (minLat c)) 4 = w'"
  proof -
    have "maxLat c - minLat c = w" by (simp add: f algebra_simps)
    then show ?thesis by (simp add: num_div_def num_sub_def gw) (simp add: ww gw)
  qed
  have lonDiv: "num_div rnd (num_sub rnd (maxLon c) (minLon c)) 4 = w'"
  proof -
    have "maxLon c - minLon c = w" by (simp add: f algebra_simps)
    then show ?thesis by (simp add: num_div_def num_sub_def gw) (simp add: ww gw)
  qed
  have mrow: "num_mul rnd (of_nat row) w' = of_nat row * w'"
    using rn[OF on_grid_unit[OF k'(1), of row]] row by (simp add: num_mul_def w'_def)
  have mcol: "num_mul rnd (of_nat col) w' = of_nat col * w'"
    using rn[OF on_grid_unit[OF k'(1), of col]] col by (simp add: num_mul_def w'_def)
  have g_lat: "rnd (MAX_LAT - of_nat n * w') = MAX_LAT - of_nat n * w'" if "n \<le> 4 ^ Suc k" for n
    using rn[OF on_grid_lat[OF k'(1) that]] by (simp only: w'_def)
  have g_lon: "rnd (MIN_LON + of_nat n * w') = MIN_LON + of_nat n * w'" if "n \<le> 4 ^ Suc k" for n
    using rn[OF on_grid_lon[OF k'(1) that]] by (simp only: w'_def)
  have nmax: "num_sub rnd (maxLat c) (of_nat row * w') = MAX_LAT - of_nat (4 * R + row) * w'"
  proof -
    have "maxLat c - of_nat row * w' = MAX_LAT - of_nat (4 * R + row) * w'"
      by (simp add: f ww algebra_simps)
    then show ?thesis unfolding num_sub_def by (simp only: g_lat[OF Rn(1)])
  qed
  have nmin: "num_sub rnd (MAX_LAT - of_nat (4 * R + row) * w') w'
              = MAX_LAT - (of_nat (4 * R + row) + 1) * w'"
  proof -
    have e: "MAX_LAT - of_nat (4 * R + row) * w' - w' = MAX_LAT - of_nat (4 * R + row + 1) * w'"
      by (simp add: algebra_simps)
    have "num_sub rnd (MAX_LAT - of_nat (4 * R + row) * w') w'
               = MAX_LAT - of_nat (4 * R + row + 1) * w'"
      unfolding num_sub_def e by (rule g_lat[OF Rn(2)])
    also have "\<dots> = MAX_LAT - (of_nat (4 * R + row) + 1) * w'" by (simp add: algebra_simps)
    finally show ?thesis .
  qed
  have xmin: "num_add rnd (minLon c) (of_nat col * w') = MIN_LON + of_nat (4 * C + col) * w'"
  proof -
    have "minLon c + of_nat col * w' = MIN_LON + of_nat (4 * C + col) * w'"
      by (simp add: f ww algebra_simps)
    then show ?thesis unfolding num_add_def by (simp only: g_lon[OF Cn(1)])
  qed
  have xmax: "num_add rnd (MIN_LON + of_nat (4 * C + col) * w') w'
              = MIN_LON + (of_nat (4 * C + col) + 1) * w'"
  proof -
    have e: "MIN_LON + of_nat (4 * C + col) * w' + w' = MIN_LON + of_nat (4 * C + col + 1) * w'"
      by (simp add: algebra_simps)
    have "num_add rnd (MIN_LON + of_nat (4 * C + col) * w') w'
               = MIN_LON + of_nat (4 * C + col + 1) * w'"
      unfolding num_add_def e by (rule g_lon[OF Cn(2)])
    also have "\<dots> = MIN_LON + (of_nat (4 * C + col) + 1) * w'" by (simp add: algebra_simps)
    finally show ?thesis .
  qed
  have "narrow rnd c row col = cell (Suc k) (4 * R + row) (4 * C + col)"
    unfolding narrow_def Let_def latDiv lonDiv mrow mcol nmax nmin xmin xmax
    by (simp add: cell_def w'_def)
  then show ?thesis by (simp only: c_def)
qed

lemma cell_divs:
  assumes ex: "grid_exact rnd" and k: "k < 10"
  shows "num_div rnd (num_sub rnd (maxLat (cell k R C)) (minLat (cell k R C))) 4 = 36 / 4 ^ Suc k"
    and "num_div rnd (num_sub rnd (maxLon (cell k R C)) (minLon (cell k R C))) 4 = 36 / 4 ^ Suc k"
proof -
  note rn = ex[unfolded grid_exact_def, rule_format]
  have k': "Suc k \<le> 10" "k \<le> 10" using k by simp_all
  have gw: "rnd (36 / 4 ^ k) = 36 / 4 ^ k" "rnd (36 / 4 ^ Suc k) = 36 / 4 ^ Suc k"
    using rn[OF on_grid_unit[OF k'(2), of 1]] rn[OF on_grid_unit[OF k'(1), of 1]]
    by simp_all
  have "maxLat (cell k R C) - minLat (cell k R C) = 36 / 4 ^ k"
    by (simp add: cell_def algebra_simps add_divide_distrib)
  then show "num_div rnd (num_sub rnd (maxLat (cell k R C)) (minLat (cell k R C))) 4 = 36 / 4 ^ Suc k"
    using gw by (simp add: num_div_def num_sub_def)
  have "maxLon (cell k R C) - minLon (cell k R C) = 36 / 4 ^ k"
    by (simp add: cell_def algebra_simps add_divide_distrib)
  then show "num_div rnd (num_sub rnd (maxLon (cell k R C)) (minLon (cell k R C))) 4 = 36 / 4 ^ Suc k"
    using gw by (simp add: num_div_def num_sub_def)
qed

lemma encode_level_cell:
  assumes "grid_exact rnd" "k < 10" "R < 4 ^ k" "C < 4 ^ k"
  shows "encode_level rnd lat lon (cell k R C, d) =
           Inr (cell (Suc k) (4 * R + nat (encode_row rnd lat (cell k R C)))
                             (4 * C + nat (encode_col rnd lon (cell k R C))),
                d @ [symbol_at (nat (encode_row rnd lat (cell k R C)))
                               (nat (encode_col rnd lon (cell k R C)))])"
proof -
  have "nat (encode_row rnd lat (cell k R C)) < 4" "nat (encode_col rnd lon (cell k R C)) < 4"
    using encode_row_range[of rnd lat "cell k R C"] encode_col_range[of rnd lon "cell k R C"]
    by linarith+
  from narrow_cell[OF assms this] show ?thesis by (simp add: encode_level_eq)
qed

lemma encode_row_on_line:
  assumes ex: "grid_exact rnd" and k: "k < 10" and n: "n \<le> 4"
  shows "encode_row rnd (maxLat (cell k R C) - of_nat n * (36 / 4 ^ Suc k)) (cell k R C)
         = min 3 (int n)"
proof -
  note rn = ex[unfolded grid_exact_def, rule_format]
  define w' :: real where "w' = 36 / 4 ^ Suc k"
  have w'0: "w' \<noteq> 0" by (simp add: w'_def)
  have a: "num_sub rnd (maxLat (cell k R C)) (maxLat (cell k R C) - of_nat n * w') = of_nat n * w'"
    using rn[OF on_grid_unit[of "Suc k" n]] k n by (simp add: num_sub_def w'_def)
  have b: "num_div rnd (of_nat n * w') w' = of_nat n"
    using rn[OF on_grid_small_nat[OF n]] w'0 by (simp add: num_div_def)
  show ?thesis
    unfolding encode_row_def Let_def cell_divs(1)[OF ex k] w'_def[symmetric] a b
    by simp
qed

lemma encode_col_on_line:
  assumes ex: "grid_exact rnd" and k: "k < 10" and n: "n \<le> 4"
  shows "encode_col rnd (minLon (cell k R C) + of_nat n * (36 / 4 ^ Suc k)) (cell k R C)
         = min 3 (int n)"
proof -
  note rn = ex[unfolded grid_exact_def, rule_format]
  define w' :: real where "w' = 36 / 4 ^ Suc k"
  have w'0: "w' \<noteq> 0" by (simp add: w'_def)
  have a: "num_sub rnd (minLon (cell k R C) + of_nat n * w') (minLon (cell k R C)) = of_nat n * w'"
    using rn[OF on_grid_unit[of "Suc k" n]] k n by (simp add: num_sub_def w'_def)
  have b: "num_div rnd (of_nat n * w') w' = of_nat n"
    using rn[OF on_grid_small_nat[OF n]] w'0 by (simp add: num_div_def)
  show ?thesis
    unfolding encode_col_def Let_def cell_divs(2)[OF ex k] w'_def[symmetric] a b
    by simp
qed

text \<open>
  C5. In every iteration, whatever the rectangle and the rounding, the clamped \<open>row\<close> and
  \<open>col\<close> lie in \<open>[0, 3]\<close> and the lookup in \<^verbatim>\<open>DIGIPIN_GRID\<close> is in range; the loop
  completes its 10 iterations and \<open>encodeDigipin\<close> never throws. With a rounding that is
  exact on the grid (binary64 is), a latitude exactly on the \<open>n\<close>-th grid line below the
  northern edge of a cell resolves to row \<open>n\<close>, the cell south of the line (row 3 for
  the southern edge of the cell, by the clamping), and a longitude exactly on the \<open>n\<close>-th
  grid line resolves to column \<open>n\<close>, the cell east of the line (column 3 for the eastern
  edge).
\<close>

theorem clamping_safe:
  "(\<forall>c. 0 \<le> encode_row rnd lat c \<and> encode_row rnd lat c \<le> 3 \<and>
        0 \<le> encode_col rnd lon c \<and> encode_col rnd lon c \<le> 3 \<and>
        grid_lookup (encode_row rnd lat c) (encode_col rnd lon c) =
          Inr [DIGIPIN_GRID ! nat (encode_row rnd lat c) ! nat (encode_col rnd lon c)]) \<and>
   (\<exists>c' digipin. encode_loop rnd lat lon 0 (INDIA, '''') = Inr (c', digipin) \<and>
                  length digipin = 10) \<and>
   encodeDigipin rnd lat lon \<noteq> Inl TypeError \<and>
   (grid_exact rnd \<longrightarrow>
      (\<forall>k R C n. k < 10 \<and> n \<le> 4 \<longrightarrow>
         encode_row rnd (maxLat (cell k R C) - of_nat n * (36 / 4 ^ Suc k)) (cell k R C)
           = min 3 (int n) \<and>
         encode_col rnd (minLon (cell k R C) + of_nat n * (36 / 4 ^ Suc k)) (cell k R C)
           = min 3 (int n)))"
proof -
  have a: "0 \<le> encode_row rnd lat c \<and> encode_row rnd lat c \<le> 3 \<and>
        0 \<le> encode_col rnd lon c \<and> encode_col rnd lon c \<le> 3 \<and>
        grid_lookup (encode_row rnd lat c) (encode_col rnd lon c) =
          Inr [DIGIPIN_GRID ! nat (encode_row rnd lat c) ! nat (encode_col rnd lon c)]" for c
    using encode_row_range[of rnd lat c] encode_col_range[of rnd lon c]
    by (simp add: grid_lookup_in_range symbol_at_def)
  from encode_loop_ok[of 0 rnd lat lon "(INDIA, '''')"] obtain c' t where
    enc: "encode_loop rnd lat lon 0 (INDIA, '''') = Inr (c', t)" and len: "length t = 10"
    by auto
  then have b: "\<exists>c' digipin. encode_loop rnd lat lon 0 (INDIA, '''') = Inr (c', digipin) \<and>
                  length digipin = 10" by blast
  have c: "encodeDigipin rnd lat lon \<noteq> Inl TypeError"
    using enc by (simp add: encodeDigipin_def)
  have d: "encode_row rnd (maxLat (cell k R C) - of_nat n * (36 / 4 ^ Suc k)) (cell k R C)
           = min 3 (int n) \<and>
         encode_col rnd (minLon (cell k R C) + of_nat n * (36 / 4 ^ Suc k)) (cell k R C)
           = min 3 (int n)" if "grid_exact rnd" "k < 10" "n \<le> 4" for k R C n
    using encode_row_on_line[OF that] encode_col_on_line[OF that] by simp
  from a b c d show ?thesis by blast
qed

theorem clamping_safe_witness:
  "encode_row binary64 29.5 INDIA = 1 \<and> encode_row binary64 2.5 INDIA = 3 \<and>
   encode_col binary64 72.5 INDIA = 1 \<and> encode_col binary64 99.5 INDIA = 3 \<and>
   encodeDigipin binary64 29.5 72.5 \<noteq> Inl TypeError"
proof -
  have g: "grid_exact binary64" by (rule grid_exact_binary64)
  from clamping_safe [of binary64 "29.5" "72.5"] g have
    line: "\<forall>k R C n. k < 10 \<and> n \<le> 4 \<longrightarrow>
         encode_row binary64 (maxLat (cell k R C) - of_nat n * (36 / 4 ^ Suc k)) (cell k R C)
           = min 3 (int n) \<and>
         encode_col binary64 (minLon (cell k R C) + of_nat n * (36 / 4 ^ Suc k)) (cell k R C)
           = min 3 (int n)"
    and nt: "encodeDigipin binary64 29.5 72.5 \<noteq> Inl TypeError" by blast+
  from line[rule_format, of 0 1 0 0] line[rule_format, of 0 4 0 0] nt show ?thesis
    by (simp add: INDIA_cell cell_def MAX_LAT_def MIN_LON_def)
qed

section \<open>Exact arithmetic\<close>

text \<open>
  Without rounding, every level keeps the point inside the rectangle, so that the
  rectangle that \<open>decodeDigipin\<close> returns for the code of a point contains the point.
\<close>

lemma floor_clamp_bounds:
  fixes D h :: real
  assumes h: "0 < h" and D: "0 \<le> D" "D \<le> 4 * h"
  defines "r \<equiv> min 3 (max 0 \<lfloor>D / h\<rfloor>)"
  shows "of_int r * h \<le> D \<and> D \<le> (of_int r + 1) * h"
proof -
  have q: "0 \<le> D / h" "D / h \<le> 4" using h D by (simp_all add: divide_le_eq)
  then have f: "0 \<le> \<lfloor>D / h\<rfloor>" "\<lfloor>D / h\<rfloor> \<le> 4" by (simp_all add: floor_le_iff le_floor_iff)
  show ?thesis
  proof (cases "\<lfloor>D / h\<rfloor> = 4")
    case True
    then have "r = 3" unfolding r_def by linarith
    moreover have "4 \<le> D / h" using True by linarith
    then have "4 * h \<le> D" using h by (simp add: le_divide_eq)
    ultimately show ?thesis using D h by simp
  next
    case False
    have r: "r = \<lfloor>D / h\<rfloor>" unfolding r_def using f False by linarith
    have "of_int r \<le> D / h" "D / h < of_int r + 1" unfolding r by linarith+
    then show ?thesis using h by (simp add: le_divide_eq divide_less_eq)
  qed
qed

lemma floor_clamp_unique:
  fixes D h :: real
  assumes h: "0 < h" and n: "n < 4" and D: "of_nat n * h \<le> D" "D < (of_nat n + 1) * h"
  shows "min 3 (max 0 \<lfloor>D / h\<rfloor>) = int n"
proof -
  have "of_nat n \<le> D / h" "D / h < of_nat n + 1"
    using h D by (simp_all add: le_divide_eq divide_less_eq)
  then have "\<lfloor>D / h\<rfloor> = int n" by (simp add: floor_eq_iff)
  then show ?thesis using n by linarith
qed

lemma narrow_exact:
  "maxLat (narrow exact c row col) = maxLat c - of_nat row * ((maxLat c - minLat c) / 4)"
  "minLat (narrow exact c row col) =
     maxLat c - of_nat row * ((maxLat c - minLat c) / 4) - (maxLat c - minLat c) / 4"
  "minLon (narrow exact c row col) = minLon c + of_nat col * ((maxLon c - minLon c) / 4)"
  "maxLon (narrow exact c row col) =
     minLon c + of_nat col * ((maxLon c - minLon c) / 4) + (maxLon c - minLon c) / 4"
  by (simp_all add: narrow_def exact_def num_add_def num_sub_def num_mul_def num_div_def Let_def)

lemma encode_exact:
  "encode_row exact lat c = min 3 (max 0 \<lfloor>(maxLat c - lat) / ((maxLat c - minLat c) / 4)\<rfloor>)"
  "encode_col exact lon c = min 3 (max 0 \<lfloor>(lon - minLon c) / ((maxLon c - minLon c) / 4)\<rfloor>)"
  by (simp_all add: encode_row_def encode_col_def exact_def num_sub_def num_div_def Let_def)

lemma proper_narrow_exact: "proper c \<Longrightarrow> proper (narrow exact c row col)"
  by (simp add: proper_def narrow_exact)

lemma INDIA_proper: "proper INDIA"
  by (simp add: proper_def INDIA_def MIN_LAT_def MAX_LAT_def MIN_LON_def MAX_LON_def)

lemma contains_step:
  assumes p: "proper c" and c: "contains c lat lon"
  shows "contains (narrow exact c (nat (encode_row exact lat c)) (nat (encode_col exact lon c)))
           lat lon"
proof -
  define h where "h = (maxLat c - minLat c) / 4"
  define g where "g = (maxLon c - minLon c) / 4"
  define r where "r = encode_row exact lat c"
  define s where "s = encode_col exact lon c"
  have h: "0 < h" and g: "0 < g" using p by (simp_all add: proper_def h_def g_def)
  have r0: "0 \<le> r" and s0: "0 \<le> s"
    using encode_row_range[of exact lat c] encode_col_range[of exact lon c]
    by (simp_all add: r_def s_def)
  have "0 \<le> maxLat c - lat" "maxLat c - lat \<le> 4 * h"
    using c by (simp_all add: contains_def h_def)
  from floor_clamp_bounds[OF h this]
  have lat: "of_int r * h \<le> maxLat c - lat" "maxLat c - lat \<le> (of_int r + 1) * h"
    by (simp_all add: r_def encode_exact h_def)
  have "0 \<le> lon - minLon c" "lon - minLon c \<le> 4 * g"
    using c by (simp_all add: contains_def g_def)
  from floor_clamp_bounds[OF g this]
  have lon: "of_int s * g \<le> lon - minLon c" "lon - minLon c \<le> (of_int s + 1) * g"
    by (simp_all add: s_def encode_exact g_def)
  have n: "(of_nat (nat r) :: real) = of_int r" "(of_nat (nat s) :: real) = of_int s"
    using r0 s0 by simp_all
  show ?thesis
    using lat lon
    unfolding contains_def narrow_exact r_def[symmetric] s_def[symmetric] n
      h_def[symmetric] g_def[symmetric]
    by (simp add: algebra_simps)
qed

lemma encode_loop_contains:
  "encode_loop rnd lat lon level st = Inr (c', t) \<Longrightarrow> rnd = exact \<Longrightarrow> proper (fst st) \<Longrightarrow>
   contains (fst st) lat lon \<Longrightarrow> contains c' lat lon"
proof (induction rnd lat lon level st rule: encode_loop.induct)
  case (1 rnd lat lon level st)
  show ?case
  proof (cases "level < 10")
    case False
    with "1.prems" show ?thesis by (simp add: encode_loop.simps[of _ _ _ level])
  next
    case True
    obtain c d where st: "st = (c, d)" by (cases st)
    define c1 where "c1 = narrow exact c (nat (encode_row exact lat c)) (nat (encode_col exact lon c))"
    define d1 where "d1 = d @ [symbol_at (nat (encode_row exact lat c)) (nat (encode_col exact lon c))]"
    have lev: "encode_level rnd lat lon st = Inr (c1, d1)"
      using "1.prems"(2) by (simp add: st encode_level_eq c1_def d1_def)
    have next_loop: "encode_loop rnd lat lon (level + 1) (c1, d1) = Inr (c', t)"
      using "1.prems"(1) True lev by (simp add: encode_loop.simps[of _ _ _ level])
    have "proper c1" "contains c1 lat lon"
      using "1.prems"(3,4) contains_step[of c lat lon] proper_narrow_exact[of c]
      by (simp_all add: st c1_def)
    with "1.IH"[OF True lev next_loop "1.prems"(2)] show ?thesis by simp
  qed
qed

lemma roundtrip_exact:
  assumes "2.5 \<le> lat" "lat \<le> 38.5" "63.5 \<le> lon" "lon \<le> 99.5"
  shows "\<exists>code d. encodeDigipin exact lat lon = Inr (Some code) \<and>
                  decodeDigipin exact code = Inr (Some d) \<and> contains (bounds d) lat lon"
proof -
  have inb: "\<not> (lat < MIN_LAT \<or> lat > MAX_LAT \<or> lon < MIN_LON \<or> lon > MAX_LON)"
    using assms by (simp add: MIN_LAT_def MAX_LAT_def MIN_LON_def MAX_LON_def)
  from encode_decode_link[OF this, of exact] obtain c' t where
    enc: "encode_loop exact lat lon 0 (INDIA, '''') = Inr (c', t)"
    and e: "encodeDigipin exact lat lon = Inr (Some (hyphenate t))"
    and d: "decodeDigipin exact (hyphenate t) =
             Inr (Some \<lparr>center_lat = num_div exact (num_add exact (minLat c') (maxLat c')) 2,
                        center_lon = num_div exact (num_add exact (minLon c') (maxLon c')) 2,
                        bounds = c'\<rparr>)"
    by blast
  have "contains INDIA lat lon"
    using assms by (simp add: contains_def INDIA_def MIN_LAT_def MAX_LAT_def MIN_LON_def MAX_LON_def)
  from encode_loop_contains[OF enc refl] this INDIA_proper have "contains c' lat lon" by simp
  with e d show ?thesis by simp
qed

text \<open>
  Conversely, a point that the sub-cell at \<open>(row, col)\<close> owns is resolved to this row and
  column, and the cell owns it. On the southern edge of the region the quotient is 4 and
  the clamping makes it row 3; on the eastern edge likewise.
\<close>

lemma floor_clamp_edge:
  fixes h :: real
  assumes "0 < h" and "D = 4 * h"
  shows "min 3 (max 0 \<lfloor>D / h\<rfloor>) = 3"
proof -
  have "D / h = 4" using assms by simp
  then show ?thesis by simp
qed

lemma owns_step:
  assumes p: "proper c" and reg: "MIN_LAT \<le> minLat c" "maxLon c \<le> MAX_LON"
    and row: "row < 4" and col: "col < 4"
    and o: "owns (narrow exact c row col) lat lon"
  shows "encode_row exact lat c = int row" "encode_col exact lon c = int col" "owns c lat lon"
proof -
  define h where "h = (maxLat c - minLat c) / 4"
  define g where "g = (maxLon c - minLon c) / 4"
  have h: "0 < h" and g: "0 < g" using p by (simp_all add: proper_def h_def g_def)
  define t where "t = of_nat row * h"
  define u where "u = of_nat col * g"
  have "(of_nat row :: real) \<le> 3" "(of_nat col :: real) \<le> 3" using row col by simp_all
  then have tu: "t \<le> 3 * h" "u \<le> 3 * g" "0 \<le> t" "0 \<le> u"
    using h g by (simp_all add: t_def u_def mult_right_mono)
  have e: "maxLat c - minLat c = 4 * h" "maxLon c - minLon c = 4 * g"
    by (simp_all add: h_def g_def)
  have f: "minLat (narrow exact c row col) = maxLat c - t - h"
    "maxLat (narrow exact c row col) = maxLat c - t"
    "minLon (narrow exact c row col) = minLon c + u"
    "maxLon (narrow exact c row col) = minLon c + u + g"
    by (simp_all add: narrow_exact h_def g_def t_def u_def)
  from o have olat: "maxLat c - t - h < lat \<or> maxLat c - t - h = MIN_LAT \<and> lat = MIN_LAT"
      "lat \<le> maxLat c - t"
    and olon: "minLon c + u \<le> lon"
      "lon < minLon c + u + g \<or> minLon c + u + g = MAX_LON \<and> lon = MAX_LON"
    unfolding owns_def f by simp_all
  have three: "n = 3" if "of_nat n * k = 3 * k" "0 < k" for n :: nat and k :: real
  proof -
    from that have "(of_nat n :: real) = 3" by simp
    then show ?thesis by linarith
  qed
  have lat: "encode_row exact lat c = int row \<and>
             (minLat c < lat \<or> minLat c = MIN_LAT \<and> lat = MIN_LAT)"
    using olat(1)
  proof
    assume s: "maxLat c - t - h < lat"
    have "of_nat row * h \<le> maxLat c - lat" "maxLat c - lat < (of_nat row + 1) * h"
      using s olat(2) by (simp_all add: t_def algebra_simps)
    from floor_clamp_unique[OF h row this] have "encode_row exact lat c = int row"
      unfolding encode_exact h_def[symmetric] .
    moreover have "minLat c < lat" using s tu e by linarith
    ultimately show ?thesis by simp
  next
    assume s: "maxLat c - t - h = MIN_LAT \<and> lat = MIN_LAT"
    then have t3: "t = 3 * h" using reg(1) tu e by linarith
    then have r3: "row = 3" using three[of row h] h by (simp add: t_def)
    have "maxLat c - lat = 4 * h" using s t3 by linarith
    from floor_clamp_edge[OF h this] have "encode_row exact lat c = 3"
      unfolding encode_exact h_def[symmetric] .
    moreover have "minLat c = MIN_LAT" using s t3 e by linarith
    ultimately show ?thesis using r3 s by simp
  qed
  have lon: "encode_col exact lon c = int col \<and>
             (lon < maxLon c \<or> maxLon c = MAX_LON \<and> lon = MAX_LON)"
    using olon(2)
  proof
    assume s: "lon < minLon c + u + g"
    have "of_nat col * g \<le> lon - minLon c" "lon - minLon c < (of_nat col + 1) * g"
      using s olon(1) by (simp_all add: u_def algebra_simps)
    from floor_clamp_unique[OF g col this] have "encode_col exact lon c = int col"
      unfolding encode_exact g_def[symmetric] .
    moreover have "lon < maxLon c" using s tu e by linarith
    ultimately show ?thesis by simp
  next
    assume s: "minLon c + u + g = MAX_LON \<and> lon = MAX_LON"
    then have u3: "u = 3 * g" using reg(2) tu e by linarith
    then have c3: "col = 3" using three[of col g] g by (simp add: u_def)
    have "lon - minLon c = 4 * g" using s u3 by linarith
    from floor_clamp_edge[OF g this] have "encode_col exact lon c = 3"
      unfolding encode_exact g_def[symmetric] .
    moreover have "maxLon c = MAX_LON" using s u3 e by linarith
    ultimately show ?thesis using c3 s by simp
  qed
  show "encode_row exact lat c = int row" "encode_col exact lon c = int col"
    using lat lon by simp_all
  have "lat \<le> maxLat c" "minLon c \<le> lon" using olat(2) olon(1) tu by linarith+
  with lat lon show "owns c lat lon" by (simp add: owns_def)
qed

section \<open>Codes and cells\<close>

text \<open>
  With a rounding that is exact on the grid, \<open>decodeDigipin\<close> returns the cell that the
  symbols of the code lead to and its centre, all without rounding error.
\<close>

lemma decode_loop_cell:
  "c = cell level R C \<Longrightarrow> grid_exact rnd \<Longrightarrow> length pin = 10 \<Longrightarrow> chars_known pin \<Longrightarrow>
   level \<le> 10 \<Longrightarrow> R < 4 ^ level \<Longrightarrow> C < 4 ^ level \<Longrightarrow>
   decode_loop rnd pin level c =
     Inr (cell 10 (fst (path_index (R, C) (drop level pin))) (snd (path_index (R, C) (drop level pin)))) \<and>
   fst (path_index (R, C) (drop level pin)) < 4 ^ 10 \<and>
   snd (path_index (R, C) (drop level pin)) < 4 ^ 10"
proof (induction rnd pin level c arbitrary: R C rule: decode_loop.induct)
  case (1 rnd pin level c)
  show ?case
  proof (cases "level < 10")
    case False
    with "1.prems" have "level = 10" by simp
    with "1.prems" show ?thesis by (simp add: decode_loop.simps[of _ _ 10])
  next
    case True
    have lt: "level < length pin" using True "1.prems"(3) by simp
    have "pin ! level \<in> alphabet" using lt "1.prems"(4) by (auto simp: chars_known_iff)
    then obtain row col where pos: "CHAR_TO_POS (pin ! level) = Some (row, col)"
      using CHAR_TO_POS_None[of "pin ! level"] by (cases "CHAR_TO_POS (pin ! level)") auto
    note rc = CHAR_TO_POS_Some[OF pos]
    have R': "4 * R + row < 4 ^ (level + 1)" and C': "4 * C + col < 4 ^ (level + 1)"
      using "1.prems"(6,7) rc(1,2) by simp_all
    have lev: "decode_level rnd pin level c = Inr (cell (level + 1) (4 * R + row) (4 * C + col))"
      using decode_level_eq[OF lt pos, of rnd c]
        narrow_cell[OF "1.prems"(2) True "1.prems"(6,7) rc(1,2)] "1.prems"(1) by simp
    have dr: "drop level pin = pin ! level # drop (level + 1) pin"
      using lt by (simp add: Cons_nth_drop_Suc)
    from "1.IH"[OF True lev refl "1.prems"(2,3,4) _ R' C'] True
    have "decode_loop rnd pin (level + 1) (cell (level + 1) (4 * R + row) (4 * C + col)) =
            Inr (cell 10 (fst (path_index (4 * R + row, 4 * C + col) (drop (level + 1) pin)))
                         (snd (path_index (4 * R + row, 4 * C + col) (drop (level + 1) pin))))"
      and "fst (path_index (4 * R + row, 4 * C + col) (drop (level + 1) pin)) < 4 ^ 10"
      and "snd (path_index (4 * R + row, 4 * C + col) (drop (level + 1) pin)) < 4 ^ 10"
      by simp_all
    then show ?thesis
      using True lev by (subst decode_loop.simps) (simp add: dr pos)
  qed
qed




lemma on_grid_center:
  assumes "n < 4 ^ 10"
  shows "on_grid (2 * MAX_LAT - (2 * of_nat n + 1) * (36 / 4 ^ 10))"
    "on_grid (MAX_LAT - (of_nat n + 1 / 2) * (36 / 4 ^ 10))"
    "on_grid (2 * MIN_LON + (2 * of_nat n + 1) * (36 / 4 ^ 10))"
    "on_grid (MIN_LON + (of_nat n + 1 / 2) * (36 / 4 ^ 10))"
proof -
  define t :: real where "t = of_nat n * (36 / 4 ^ 10)"
  have t: "0 \<le> t" "t \<le> 36" unfolding t_def using multiple_bound[of n 10] assms by simp_all
  define T :: real where "T = t * 2 ^ 20"
  have ti: "T \<in> \<int>" unfolding T_def t_def by (rule grid_multiple) simp
  have e: "2 * MAX_LAT - (2 * of_nat n + 1) * (36 / 4 ^ 10) = 77 - 2 * t - 36 / 4 ^ 10"
    "MAX_LAT - (of_nat n + 1 / 2) * (36 / 4 ^ 10) = 77 / 2 - t - 18 / 4 ^ 10"
    "2 * MIN_LON + (2 * of_nat n + 1) * (36 / 4 ^ 10) = 127 + 2 * t + 36 / 4 ^ 10"
    "MIN_LON + (of_nat n + 1 / 2) * (36 / 4 ^ 10) = 127 / 2 + t + 18 / 4 ^ 10"
    by (simp_all add: t_def MAX_LAT_def MIN_LON_def field_simps)
  have i: "(77 - 2 * t - 36 / 4 ^ 10) * 2 ^ 20 = 80740316 - 2 * T"
    "(77 / 2 - t - 18 / 4 ^ 10) * 2 ^ 20 = 40370158 - T"
    "(127 + 2 * t + 36 / 4 ^ 10) * 2 ^ 20 = 133169188 + 2 * T"
    "(127 / 2 + t + 18 / 4 ^ 10) * 2 ^ 20 = 66584594 + T"
    by (simp_all add: T_def algebra_simps)
  have m: "80740316 - 2 * T \<in> \<int>" "40370158 - T \<in> \<int>"
    "133169188 + 2 * T \<in> \<int>" "66584594 + T \<in> \<int>"
    by (intro Ints_diff Ints_add Ints_mult Ints_numeral ti)+
  have b: "\<bar>77 - 2 * t - 36 / 4 ^ 10\<bar> < 256" "\<bar>77 / 2 - t - 18 / 4 ^ 10\<bar> < 256"
    "\<bar>127 + 2 * t + 36 / 4 ^ 10\<bar> < 256" "\<bar>127 / 2 + t + 18 / 4 ^ 10\<bar> < 256"
    using t by (simp_all add: abs_if)
  show "on_grid (2 * MAX_LAT - (2 * of_nat n + 1) * (36 / 4 ^ 10))"
    "on_grid (MAX_LAT - (of_nat n + 1 / 2) * (36 / 4 ^ 10))"
    "on_grid (2 * MIN_LON + (2 * of_nat n + 1) * (36 / 4 ^ 10))"
    "on_grid (MIN_LON + (of_nat n + 1 / 2) * (36 / 4 ^ 10))"
    unfolding e on_grid_def i using m b by blast+
qed

lemma cell_center:
  assumes ex: "grid_exact rnd" and R: "R < 4 ^ 10" and C: "C < 4 ^ 10"
  shows "num_div rnd (num_add rnd (minLat (cell 10 R C)) (maxLat (cell 10 R C))) 2
           = MAX_LAT - (of_nat R + 1 / 2) * (36 / 4 ^ 10)"
    and "num_div rnd (num_add rnd (minLon (cell 10 R C)) (maxLon (cell 10 R C))) 2
           = MIN_LON + (of_nat C + 1 / 2) * (36 / 4 ^ 10)"
proof -
  note rn = ex[unfolded grid_exact_def, rule_format]
  have a: "minLat (cell 10 R C) + maxLat (cell 10 R C) = 2 * MAX_LAT - (2 * of_nat R + 1) * (36 / 4 ^ 10)"
    by (simp add: cell_def algebra_simps)
  have b: "(2 * MAX_LAT - (2 * of_nat R + 1) * (36 / 4 ^ 10)) / 2 = MAX_LAT - (of_nat R + 1 / 2) * (36 / 4 ^ 10)"
    by (simp add: field_simps)
  show "num_div rnd (num_add rnd (minLat (cell 10 R C)) (maxLat (cell 10 R C))) 2
           = MAX_LAT - (of_nat R + 1 / 2) * (36 / 4 ^ 10)"
    unfolding num_div_def num_add_def a rn[OF on_grid_center(1)[OF R]] b
    by (rule rn[OF on_grid_center(2)[OF R]])
  have c: "minLon (cell 10 R C) + maxLon (cell 10 R C) = 2 * MIN_LON + (2 * of_nat C + 1) * (36 / 4 ^ 10)"
    by (simp add: cell_def algebra_simps)
  have d: "(2 * MIN_LON + (2 * of_nat C + 1) * (36 / 4 ^ 10)) / 2 = MIN_LON + (of_nat C + 1 / 2) * (36 / 4 ^ 10)"
    by (simp add: field_simps)
  show "num_div rnd (num_add rnd (minLon (cell 10 R C)) (maxLon (cell 10 R C))) 2
           = MIN_LON + (of_nat C + 1 / 2) * (36 / 4 ^ 10)"
    unfolding num_div_def num_add_def c rn[OF on_grid_center(3)[OF C]] d
    by (rule rn[OF on_grid_center(4)[OF C]])
qed

lemma decodeDigipin_eval:
  assumes ex: "grid_exact rnd" and len: "length t = 10" and alph: "set t \<subseteq> alphabet"
    and n: "toUpperCase (replace_hyphens s) = t"
  shows "decodeDigipin rnd s =
           Inr (Some \<lparr>center_lat = MAX_LAT - (of_nat (fst (path_index (0, 0) t)) + 1 / 2) * (36 / 4 ^ 10),
                      center_lon = MIN_LON + (of_nat (snd (path_index (0, 0) t)) + 1 / 2) * (36 / 4 ^ 10),
                      bounds = cell 10 (fst (path_index (0, 0) t)) (snd (path_index (0, 0) t))\<rparr>)"
proof -
  have k: "chars_known t" using alph by (simp add: chars_known_iff)
  from decode_loop_cell[OF INDIA_cell ex len k]
  have d: "decode_loop rnd t 0 INDIA =
            Inr (cell 10 (fst (path_index (0, 0) t)) (snd (path_index (0, 0) t)))"
    and R: "fst (path_index (0, 0) t) < 4 ^ 10" and C: "snd (path_index (0, 0) t) < 4 ^ 10"
    by simp_all
  show ?thesis
    using len k d by (simp add: decodeDigipin_def n cell_center[OF ex R C])
qed

lemma cell_proper: "proper (cell k R C)"
proof -
  define w :: real where "w = 36 / 4 ^ k"
  have "0 < w" by (simp add: w_def)
  then have "MAX_LAT - (of_nat R + 1) * w < MAX_LAT - of_nat R * w"
    "MIN_LON + of_nat C * w < MIN_LON + (of_nat C + 1) * w"
    by (simp_all add: algebra_simps)
  then show ?thesis by (simp add: proper_def cell_def w_def)
qed

subsection \<open>Rounded and exact arithmetic agree on the lattice\<close>

lemma lattice_on_grid:
  fixes D :: real
  assumes k: "k < 10" and D: "D = of_int j * (9 / 2 ^ 19) - of_nat n * (36 / 4 ^ k)"
    and b: "0 \<le> D" "D \<le> 36 / 4 ^ k"
  shows "on_grid D" "on_grid (D / (36 / 4 ^ Suc k))"
proof -
  define j' :: int where "j' = j - 2 * int n * 4 ^ (10 - k)"
  have p: "(4::real) ^ 10 = 4 ^ k * 4 ^ (10 - k)"
    using k by (simp flip: power_add)
  have "(36 / 4 ^ k :: real) = 2 * 4 ^ (10 - k) * (36 / (2 * 4 ^ 10))"
    unfolding p by simp
  also have "\<dots> = 2 * 4 ^ (10 - k) * (9 / 2 ^ 19)" by simp
  finally have w: "(36 / 4 ^ k :: real) = 2 * 4 ^ (10 - k) * (9 / 2 ^ 19)" .
  have Dj: "D = of_int j' * (9 / 2 ^ 19)"
    unfolding D w j'_def by (simp add: algebra_simps)
  have "D * 2 ^ 20 = of_int (j' * 18)" unfolding Dj by simp
  then have i1: "D * 2 ^ 20 \<in> \<int>" by (simp only: Ints_of_int)
  have "36 / 4 ^ k \<le> (36::real)" by (simp add: divide_le_eq)
  then have "\<bar>D\<bar> < 256" using b by (simp add: abs_if)
  with i1 show "on_grid D" by (simp add: on_grid_def)
  have "D / (36 / 4 ^ Suc k) = of_int j' * 4 ^ k / 2 ^ 19"
    unfolding Dj by simp
  then have "D / (36 / 4 ^ Suc k) * 2 ^ 20 = of_int (j' * 4 ^ k * 2)" by simp
  then have i2: "D / (36 / 4 ^ Suc k) * 2 ^ 20 \<in> \<int>" by (simp only: Ints_of_int)
  have "0 \<le> D / (36 / 4 ^ Suc k)" using b by simp
  moreover have "D / (36 / 4 ^ Suc k) \<le> 4"
    using b(2) by (simp add: field_simps)
  ultimately have "\<bar>D / (36 / 4 ^ Suc k)\<bar> < 256" by (simp add: abs_if)
  with i2 show "on_grid (D / (36 / 4 ^ Suc k))" by (simp add: on_grid_def)
qed

lemma encode_row_lattice:
  assumes ex: "grid_exact rnd" and k: "k < 10"
    and j: "MAX_LAT - lat = of_int j * (9 / 2 ^ 19)"
    and b: "minLat (cell k R C) \<le> lat" "lat \<le> maxLat (cell k R C)"
  shows "encode_row rnd lat (cell k R C) =
           min 3 (max 0 \<lfloor>(maxLat (cell k R C) - lat) / (36 / 4 ^ Suc k)\<rfloor>)"
proof -
  note rn = ex[unfolded grid_exact_def, rule_format]
  define D where "D = maxLat (cell k R C) - lat"
  have "D = (MAX_LAT - lat) - of_nat R * (36 / 4 ^ k)" by (simp add: D_def cell_def)
  then have D: "D = of_int j * (9 / 2 ^ 19) - of_nat R * (36 / 4 ^ k)" by (simp only: j)
  have "maxLat (cell k R C) - minLat (cell k R C) = 36 / 4 ^ k"
    by (simp add: cell_def algebra_simps add_divide_distrib)
  then have bd: "0 \<le> D" "D \<le> 36 / 4 ^ k" using b by (simp_all add: D_def)
  note g = lattice_on_grid[OF k D bd]
  show ?thesis
    apply (simp only: encode_row_def Let_def cell_divs(1)[OF ex k])
    apply (simp only: num_sub_def num_div_def D_def[symmetric] rn[OF g(1)] rn[OF g(2)])
    done
qed

lemma encode_col_lattice:
  assumes ex: "grid_exact rnd" and k: "k < 10"
    and j: "lon - MIN_LON = of_int j * (9 / 2 ^ 19)"
    and b: "minLon (cell k R C) \<le> lon" "lon \<le> maxLon (cell k R C)"
  shows "encode_col rnd lon (cell k R C) =
           min 3 (max 0 \<lfloor>(lon - minLon (cell k R C)) / (36 / 4 ^ Suc k)\<rfloor>)"
proof -
  note rn = ex[unfolded grid_exact_def, rule_format]
  define D where "D = lon - minLon (cell k R C)"
  have "D = (lon - MIN_LON) - of_nat C * (36 / 4 ^ k)" by (simp add: D_def cell_def)
  then have D: "D = of_int j * (9 / 2 ^ 19) - of_nat C * (36 / 4 ^ k)" by (simp only: j)
  have "maxLon (cell k R C) - minLon (cell k R C) = 36 / 4 ^ k"
    by (simp add: cell_def algebra_simps add_divide_distrib)
  then have bd: "0 \<le> D" "D \<le> 36 / 4 ^ k" using b by (simp_all add: D_def)
  note g = lattice_on_grid[OF k D bd]
  show ?thesis
    apply (simp only: encode_col_def Let_def cell_divs(2)[OF ex k])
    apply (simp only: num_sub_def num_div_def D_def[symmetric] rn[OF g(1)] rn[OF g(2)])
    done
qed

lemma encode_loop_lattice:
  "st = (cell level R C, d) \<Longrightarrow> grid_exact rnd \<Longrightarrow> level \<le> 10 \<Longrightarrow> R < 4 ^ level \<Longrightarrow>
   C < 4 ^ level \<Longrightarrow> MAX_LAT - lat = of_int j * (9 / 2 ^ 19) \<Longrightarrow>
   lon - MIN_LON = of_int i * (9 / 2 ^ 19) \<Longrightarrow> contains (cell level R C) lat lon \<Longrightarrow>
   encode_loop rnd lat lon level st = encode_loop exact lat lon level st"
proof (induction rnd lat lon level st arbitrary: R C d rule: encode_loop.induct)
  case (1 rnd lat lon level st)
  show ?case
  proof (cases "level < 10")
    case False
    then show ?thesis by (simp add: encode_loop.simps[of _ _ _ level])
  next
    case True
    let ?c = "cell level R C"
    have b: "minLat ?c \<le> lat" "lat \<le> maxLat ?c" "minLon ?c \<le> lon" "lon \<le> maxLon ?c"
      using "1.prems"(8) by (simp_all add: contains_def)
    have row: "encode_row rnd lat ?c = encode_row exact lat ?c"
      using encode_row_lattice[OF "1.prems"(2) True "1.prems"(6) b(1,2)]
        encode_row_lattice[OF grid_exact_exact True "1.prems"(6) b(1,2)] by simp
    have col: "encode_col rnd lon ?c = encode_col exact lon ?c"
      using encode_col_lattice[OF "1.prems"(2) True "1.prems"(7) b(3,4)]
        encode_col_lattice[OF grid_exact_exact True "1.prems"(7) b(3,4)] by simp
    define r where "r = nat (encode_row exact lat ?c)"
    define s where "s = nat (encode_col exact lon ?c)"
    have rs: "r < 4" "s < 4"
      using encode_row_range[of exact lat ?c] encode_col_range[of exact lon ?c]
      unfolding r_def s_def by linarith+
    have l1: "encode_level rnd lat lon st =
               Inr (cell (level + 1) (4 * R + r) (4 * C + s), d @ [symbol_at r s])"
      using encode_level_cell[OF "1.prems"(2) True "1.prems"(4,5), of lat lon d]
      by (simp add: "1.prems"(1) row col r_def s_def)
    have l2: "encode_level exact lat lon st =
               Inr (cell (level + 1) (4 * R + r) (4 * C + s), d @ [symbol_at r s])"
      using encode_level_cell[OF grid_exact_exact True "1.prems"(4,5), of lat lon d]
      by (simp add: "1.prems"(1) r_def s_def)
    have "contains (narrow exact ?c r s) lat lon"
      unfolding r_def s_def
      by (rule contains_step[OF cell_proper "1.prems"(8)])
    then have c': "contains (cell (level + 1) (4 * R + r) (4 * C + s)) lat lon"
      using narrow_cell[OF grid_exact_exact True "1.prems"(4,5) rs] by simp
    have R': "4 * R + r < 4 ^ (level + 1)" "4 * C + s < 4 ^ (level + 1)"
      using "1.prems"(4,5) rs by simp_all
    from "1.IH"[OF True l1 refl "1.prems"(2) _ R' "1.prems"(6,7) c'] True
    have "encode_loop rnd lat lon (level + 1) (cell (level + 1) (4 * R + r) (4 * C + s), d @ [symbol_at r s])
        = encode_loop exact lat lon (level + 1) (cell (level + 1) (4 * R + r) (4 * C + s), d @ [symbol_at r s])"
      by simp
    then show ?thesis
      using True l1 l2
      by (simp add: encode_loop.simps[of rnd _ _ level] encode_loop.simps[of exact _ _ level])
  qed
qed

lemma encodeDigipin_lattice:
  assumes "grid_exact rnd" "MAX_LAT - lat = of_int j * (9 / 2 ^ 19)"
    "lon - MIN_LON = of_int i * (9 / 2 ^ 19)"
  shows "encodeDigipin rnd lat lon = encodeDigipin exact lat lon"
proof (cases "lat < MIN_LAT \<or> lat > MAX_LAT \<or> lon < MIN_LON \<or> lon > MAX_LON")
  case True
  then show ?thesis by (simp add: encodeDigipin_def)
next
  case False
  then have "contains (cell 0 0 0) lat lon"
    by (simp add: contains_def INDIA_cell[symmetric] INDIA_def)
  from encode_loop_lattice[OF _ assms(1) _ _ _ assms(2,3) this, of "(INDIA, '''')" "''''"]
  have "encode_loop rnd lat lon 0 (INDIA, '''') = encode_loop exact lat lon 0 (INDIA, '''')"
    by (simp add: INDIA_cell)
  then show ?thesis by (simp add: encodeDigipin_def)
qed

subsection \<open>The code of the points that a cell owns\<close>

lemma owns_INDIA:
  assumes "owns INDIA lat lon"
  shows "\<not> (lat < MIN_LAT \<or> lat > MAX_LAT \<or> lon < MIN_LON \<or> lon > MAX_LON)"
  using assms by (auto simp: owns_def INDIA_def)

lemma cell_region:
  assumes "R < 4 ^ k" "C < 4 ^ k"
  shows "MIN_LAT \<le> minLat (cell k R C)" "maxLon (cell k R C) \<le> MAX_LON"
proof -
  define t :: real where "t = of_nat (R + 1) * (36 / 4 ^ k)"
  define u :: real where "u = of_nat (C + 1) * (36 / 4 ^ k)"
  have "t \<le> 36" "u \<le> 36"
    unfolding t_def u_def using multiple_bound(2)[of "R + 1" k] multiple_bound(2)[of "C + 1" k] assms
    by simp_all
  moreover have "minLat (cell k R C) = MAX_LAT - t" "maxLon (cell k R C) = MIN_LON + u"
    by (simp_all add: cell_def t_def u_def)
  ultimately show "MIN_LAT \<le> minLat (cell k R C)" "maxLon (cell k R C) \<le> MAX_LON"
    by (simp_all add: MIN_LAT_def MAX_LAT_def MIN_LON_def MAX_LON_def)
qed

lemma cell_child:
  "maxLat (cell (Suc k) (4 * R + row) C') = maxLat (cell k R C) - of_nat row * (36 / 4 ^ Suc k)"
  "minLat (cell (Suc k) (4 * R + row) C') =
     maxLat (cell k R C) - (of_nat row + 1) * (36 / 4 ^ Suc k)"
  "minLon (cell (Suc k) R' (4 * C + col)) = minLon (cell k R C) + of_nat col * (36 / 4 ^ Suc k)"
  "maxLon (cell (Suc k) R' (4 * C + col)) =
     minLon (cell k R C) + (of_nat col + 1) * (36 / 4 ^ Suc k)"
  by (simp_all add: cell_def field_simps)

lemma cell_child_inside:
  assumes "row < 4" "col < 4"
  shows "minLat (cell k R C) \<le> minLat (cell (Suc k) (4 * R + row) C')"
    "maxLat (cell (Suc k) (4 * R + row) C') \<le> maxLat (cell k R C)"
    "minLon (cell k R C) \<le> minLon (cell (Suc k) R' (4 * C + col))"
    "maxLon (cell (Suc k) R' (4 * C + col)) \<le> maxLon (cell k R C)"
proof -
  define h :: real where "h = 36 / 4 ^ Suc k"
  have h: "0 < h" by (simp add: h_def)
  have w: "minLat (cell k R C) = maxLat (cell k R C) - 4 * h"
    "maxLon (cell k R C) = minLon (cell k R C) + 4 * h"
    by (simp_all add: cell_def h_def field_simps)
  have "(of_nat row :: real) + 1 \<le> 4" "(of_nat col :: real) + 1 \<le> 4"
    "(0 :: real) \<le> of_nat row" "(0 :: real) \<le> of_nat col" using assms by simp_all
  then have "(of_nat row + 1) * h \<le> 4 * h" "(of_nat col + 1) * h \<le> 4 * h"
    "0 \<le> of_nat row * h" "0 \<le> of_nat col * h"
    using h by (simp_all only: mult_right_mono mult_nonneg_nonneg less_imp_le)
  then show "minLat (cell k R C) \<le> minLat (cell (Suc k) (4 * R + row) C')"
    "maxLat (cell (Suc k) (4 * R + row) C') \<le> maxLat (cell k R C)"
    "minLon (cell k R C) \<le> minLon (cell (Suc k) R' (4 * C + col))"
    "maxLon (cell (Suc k) R' (4 * C + col)) \<le> maxLon (cell k R C)"
    unfolding cell_child[of k R row C' C] cell_child(3,4)[of k R' C col R] w h_def[symmetric]
    by linarith+
qed

text \<open>
  With an accurate rounding, a coordinate that keeps the margin from the edges of the
  sub-cell at \<open>(row, col)\<close> is resolved to this row and column.
\<close>

lemma unit_bound: "0 < (36 / 4 ^ Suc k :: real)" "(36 / 4 ^ Suc k :: real) \<le> 9"
proof -
  have "(1::real) \<le> 4 ^ k" by simp
  then show "(36 / 4 ^ Suc k :: real) \<le> 9" by (simp add: divide_le_eq)
  show "0 < (36 / 4 ^ Suc k :: real)" by simp
qed

lemma encode_row_clear:
  assumes ex: "grid_exact rnd" and acc: "accurate rnd" and k: "k < 10" and row: "row < 4"
    and lo: "minLat (cell (Suc k) (4 * R + row) C') + margin \<le> lat"
    and hi: "lat \<le> maxLat (cell (Suc k) (4 * R + row) C') - margin"
  shows "encode_row rnd lat (cell k R C) = int row"
proof -
  define h :: real where "h = 36 / 4 ^ Suc k"
  define D where "D = maxLat (cell k R C) - lat"
  have h: "0 < h" "h \<le> 9" unfolding h_def by (rule unit_bound)+
  have "of_nat row * h + margin \<le> D" "D \<le> (of_nat row + 1) * h - margin"
    using lo hi unfolding cell_child[of k R row C' C] D_def h_def[symmetric] by linarith+
  from floor_rounded[OF acc h row this] show ?thesis
    apply (simp only: encode_row_def Let_def cell_divs(1)[OF ex k])
    apply (simp only: num_sub_def num_div_def D_def h_def)
    done
qed

lemma encode_col_clear:
  assumes ex: "grid_exact rnd" and acc: "accurate rnd" and k: "k < 10" and col: "col < 4"
    and lo: "minLon (cell (Suc k) R' (4 * C + col)) + margin \<le> lon"
    and hi: "lon \<le> maxLon (cell (Suc k) R' (4 * C + col)) - margin"
  shows "encode_col rnd lon (cell k R C) = int col"
proof -
  define h :: real where "h = 36 / 4 ^ Suc k"
  define D where "D = lon - minLon (cell k R C)"
  have h: "0 < h" "h \<le> 9" unfolding h_def by (rule unit_bound)+
  have "of_nat col * h + margin \<le> D" "D \<le> (of_nat col + 1) * h - margin"
    using lo hi unfolding cell_child(3,4)[of k R' C col R] D_def h_def[symmetric] by linarith+
  from floor_rounded[OF acc h col this] show ?thesis
    apply (simp only: encode_col_def Let_def cell_divs(2)[OF ex k])
    apply (simp only: num_sub_def num_div_def D_def h_def)
    done
qed

text \<open>
  Along the cells that the symbols of a code lead through, a point that the last cell owns
  and that rounding leaves unaffected is resolved to the symbols of the code, level by
  level.
\<close>

lemma owned_loop:
  "decode_loop rnd pin level c = Inr c' \<Longrightarrow> c = cell level R C \<Longrightarrow> grid_exact rnd \<Longrightarrow>
   accurate rnd \<Longrightarrow> level \<le> 10 \<Longrightarrow> length pin = 10 \<Longrightarrow> R < 4 ^ level \<Longrightarrow> C < 4 ^ level \<Longrightarrow>
   owns c' lat lon \<Longrightarrow> unaffected rnd c' lat lon \<Longrightarrow>
   owns c lat lon \<and> unaffected rnd c lat lon \<and>
   encode_loop rnd lat lon level (c, d) = Inr (c', d @ drop level pin)"
proof (induction rnd pin level c arbitrary: R C d rule: decode_loop.induct)
  case (1 rnd pin level c)
  show ?case
  proof (cases "level < 10")
    case False
    with "1.prems" have "level = 10" by simp
    with "1.prems" show ?thesis
      by (simp add: decode_loop.simps[of _ _ 10] encode_loop.simps[of _ _ _ 10])
  next
    case True
    note ex = "1.prems"(3) and acc = "1.prems"(4) and c = "1.prems"(2)
    from "1.prems"(1) True obtain c1 where
      lev: "decode_level rnd pin level c = Inr c1"
      and rest: "decode_loop rnd pin (level + 1) c1 = Inr c'"
      by (auto simp: decode_loop.simps[of _ _ level] split: sum.splits)
    from lev True "1.prems"(6) obtain row col where
      pos: "CHAR_TO_POS (pin ! level) = Some (row, col)" and c1: "c1 = narrow rnd c row col"
      by (auto simp: decode_level_def narrow_def Let_def split: option.splits if_splits)
    note rc = CHAR_TO_POS_Some[OF pos]
    have R': "4 * R + row < 4 ^ (level + 1)" and C': "4 * C + col < 4 ^ (level + 1)"
      using "1.prems"(7,8) rc(1,2) by simp_all
    have c1c: "c1 = cell (level + 1) (4 * R + row) (4 * C + col)"
      using narrow_cell[OF ex True "1.prems"(7,8) rc(1,2)] c1 c by simp
    have c1e: "narrow exact c row col = c1"
      using narrow_cell[OF grid_exact_exact True "1.prems"(7,8) rc(1,2)] c1c c by simp
    from "1.IH"[OF True lev rest c1c ex acc _ "1.prems"(6) R' C' "1.prems"(9,10),
        of "d @ [pin ! level]"] True
    have o1: "owns c1 lat lon" and u1: "unaffected rnd c1 lat lon"
      and e1: "encode_loop rnd lat lon (level + 1) (c1, d @ [pin ! level])
                = Inr (c', (d @ [pin ! level]) @ drop (level + 1) pin)"
      by simp_all
    have p: "proper c" unfolding c by (rule cell_proper)
    have reg: "MIN_LAT \<le> minLat c" "maxLon c \<le> MAX_LON"
      unfolding c by (rule cell_region[OF "1.prems"(7,8)])+
    note st = owns_step[OF p reg rc(1,2) o1[folded c1e]]
    have b: "minLat (cell level R C) \<le> lat" "lat \<le> maxLat (cell level R C)"
      "minLon (cell level R C) \<le> lon" "lon \<le> maxLon (cell level R C)"
      using st(3) unfolding owns_def c by linarith+
    note inside =
      cell_child_inside(1,2)[OF rc(1,2), where k = level and R = R and C = C and C' = "4 * C + col"]
      cell_child_inside(3,4)[OF rc(1,2), where k = level and R = R and C = C and R' = "4 * R + row"]
    have row: "encode_row rnd lat c = int row \<and> (rnd = exact \<or> clear_lat c lat)"
    proof (cases "rnd = exact")
      case True
      then show ?thesis using st(1) by simp
    next
      case False
      with u1 have "clear_lat c1 lat" by (simp add: unaffected_def)
      then show ?thesis unfolding clear_lat_def
      proof
        assume l: "lattice_lat lat"
        then obtain j :: int where "(MAX_LAT - lat) / (9 / 2 ^ 19) = of_int j"
          by (auto simp: lattice_lat_def Ints_def)
        then have j: "MAX_LAT - lat = of_int j * (9 / 2 ^ 19)" by (simp add: field_simps)
        from encode_row_lattice[OF ex True j b(1,2)]
          encode_row_lattice[OF grid_exact_exact True j b(1,2)] st(1) l
        show "encode_row rnd lat c = int row \<and>
              (rnd = exact \<or> lattice_lat lat \<or> minLat c + margin \<le> lat \<and> lat \<le> maxLat c - margin)"
          by (simp add: c)
      next
        assume m: "minLat c1 + margin \<le> lat \<and> lat \<le> maxLat c1 - margin"
        then have "encode_row rnd lat (cell level R C) = int row"
          using encode_row_clear[OF ex acc True rc(1), of R "4 * C + col" lat C]
          by (simp add: c1c)
        moreover have "minLat c + margin \<le> lat \<and> lat \<le> maxLat c - margin"
          using m inside(1,2) unfolding c1c c by simp
        ultimately show "encode_row rnd lat c = int row \<and>
              (rnd = exact \<or> lattice_lat lat \<or> minLat c + margin \<le> lat \<and> lat \<le> maxLat c - margin)"
          by (simp add: c)
      qed
    qed
    have col: "encode_col rnd lon c = int col \<and> (rnd = exact \<or> clear_lon c lon)"
    proof (cases "rnd = exact")
      case True
      then show ?thesis using st(2) by simp
    next
      case False
      with u1 have "clear_lon c1 lon" by (simp add: unaffected_def)
      then show ?thesis unfolding clear_lon_def
      proof
        assume l: "lattice_lon lon"
        then obtain j :: int where "(lon - MIN_LON) / (9 / 2 ^ 19) = of_int j"
          by (auto simp: lattice_lon_def Ints_def)
        then have j: "lon - MIN_LON = of_int j * (9 / 2 ^ 19)" by (simp add: field_simps)
        from encode_col_lattice[OF ex True j b(3,4)]
          encode_col_lattice[OF grid_exact_exact True j b(3,4)] st(2) l
        show "encode_col rnd lon c = int col \<and>
              (rnd = exact \<or> lattice_lon lon \<or> minLon c + margin \<le> lon \<and> lon \<le> maxLon c - margin)"
          by (simp add: c)
      next
        assume m: "minLon c1 + margin \<le> lon \<and> lon \<le> maxLon c1 - margin"
        then have "encode_col rnd lon (cell level R C) = int col"
          using encode_col_clear[OF ex acc True rc(2), of "4 * R + row" C lon R]
          by (simp add: c1c)
        moreover have "minLon c + margin \<le> lon \<and> lon \<le> maxLon c - margin"
          using m inside(3,4) unfolding c1c c by simp
        ultimately show "encode_col rnd lon c = int col \<and>
              (rnd = exact \<or> lattice_lon lon \<or> minLon c + margin \<le> lon \<and> lon \<le> maxLon c - margin)"
          by (simp add: c)
      qed
    qed
    have u: "unaffected rnd c lat lon" using row col by (auto simp: unaffected_def)
    have "encode_level rnd lat lon (c, d) = Inr (c1, d @ [pin ! level])"
      using row col by (simp add: encode_level_eq c1 rc(3))
    moreover have "pin ! level # drop (level + 1) pin = drop level pin"
      using True "1.prems"(6) by (simp add: Cons_nth_drop_Suc)
    ultimately have "encode_loop rnd lat lon level (c, d) = Inr (c', d @ drop level pin)"
      using True e1 by (subst encode_loop.simps) simp
    with st(3) u show ?thesis by simp
  qed
qed

lemma owned_code:
  assumes ex: "grid_exact rnd" and acc: "accurate rnd"
    and len: "length t = 10" and alph: "set t \<subseteq> alphabet"
    and dec: "decodeDigipin rnd t = Inr (Some d)" and o: "owns (bounds d) lat lon"
    and u: "unaffected rnd (bounds d) lat lon"
  shows "encodeDigipin rnd lat lon = Inr (Some (hyphenate t))"
proof -
  have n: "toUpperCase (replace_hyphens t) = t" using symbols_normal[OF alph] by simp
  have k: "chars_known t" using alph by (simp add: chars_known_iff)
  from dec len k have "decode_loop rnd t 0 INDIA = Inr (bounds d)"
    by (auto simp: decodeDigipin_def n split: sum.splits)
  from owned_loop[OF this INDIA_cell ex acc _ len _ _ o u, of "''''"]
  have "owns INDIA lat lon" and "encode_loop rnd lat lon 0 (INDIA, '''') = Inr (bounds d, t)"
    by simp_all
  then show ?thesis using owns_INDIA[of lat lon]
    by (simp add: encodeDigipin_def hyphenate_def)
qed

lemma owns_encode:
  assumes len: "length t = 10" and alph: "set t \<subseteq> alphabet"
    and dec: "decodeDigipin exact t = Inr (Some d)" and o: "owns (bounds d) lat lon"
  shows "encodeDigipin exact lat lon = Inr (Some (hyphenate t))"
  by (rule owned_code[OF grid_exact_exact accurate_exact len alph dec o])
     (simp add: unaffected_def)

lemma center_reencodes:
  assumes ex: "grid_exact rnd" and len: "length t = 10" and alph: "set t \<subseteq> alphabet"
    and n: "toUpperCase (replace_hyphens s) = t"
    and dec: "decodeDigipin rnd s = Inr (Some d)"
  shows "encodeDigipin rnd (center_lat d) (center_lon d) = Inr (Some (hyphenate t))"
proof -
  define R where "R = fst (path_index (0, 0) t)"
  define C where "C = snd (path_index (0, 0) t)"
  define w :: real where "w = 36 / 4 ^ 10"
  have w: "0 < w" by (simp add: w_def)
  have d: "d = \<lparr>center_lat = MAX_LAT - (of_nat R + 1 / 2) * w,
                center_lon = MIN_LON + (of_nat C + 1 / 2) * w, bounds = cell 10 R C\<rparr>"
    using decodeDigipin_eval[OF ex len alph n] dec by (simp add: R_def C_def w_def)
  have n': "toUpperCase (replace_hyphens t) = t" using symbols_normal[OF alph] by simp
  have de: "decodeDigipin exact t =
      Inr (Some \<lparr>center_lat = MAX_LAT - (of_nat R + 1 / 2) * w,
                 center_lon = MIN_LON + (of_nat C + 1 / 2) * w, bounds = cell 10 R C\<rparr>)"
    using decodeDigipin_eval[OF grid_exact_exact len alph n'] by (simp add: R_def C_def w_def)
  have f: "minLat (cell 10 R C) = MAX_LAT - (of_nat R + 1) * w"
    "maxLat (cell 10 R C) = MAX_LAT - of_nat R * w"
    "minLon (cell 10 R C) = MIN_LON + of_nat C * w"
    "maxLon (cell 10 R C) = MIN_LON + (of_nat C + 1) * w"
    by (simp_all add: cell_def w_def)
  have "owns (cell 10 R C) (MAX_LAT - (of_nat R + 1 / 2) * w) (MIN_LON + (of_nat C + 1 / 2) * w)"
    unfolding owns_def f using w by (simp add: algebra_simps)
  with owns_encode[OF len alph de] have e: "encodeDigipin exact (center_lat d) (center_lon d)
      = Inr (Some (hyphenate t))" by (simp add: d)
  have "MAX_LAT - center_lat d = of_int (2 * int R + 1) * (9 / 2 ^ 19)"
    "center_lon d - MIN_LON = of_int (2 * int C + 1) * (9 / 2 ^ 19)"
    by (simp_all add: d w_def algebra_simps)
  from encodeDigipin_lattice[OF ex this] e show ?thesis by simp
qed



lemma path_index_eval:
  "path_index (0, 0) ''M9FFFFFFFF'' = (786432, 393216)"
  "path_index (0, 0) ''4P3JM8K4L6'' = (744622, 411411)"
  "path_index (0, 0) ''FFFFFFFFFF'' = (0, 0)"
  "path_index (0, 0) ''FFFFFFFFFJ'' = (1, 0)"
  "path_index (0, 0) ''FFFFFFFFFC'' = (0, 1)"
  "path_index (0, 0) ''TTTTTTTTTT'' = (1048575, 1048575)"
  "path_index (0, 0) ''TTTTTTTTTP'' = (1048575, 1048574)"
  "path_index (0, 0) ''4PLLLLLLLL'' = (786431, 393216)"
  by (simp_all add: CHAR_TO_POS_eval)


text \<open>
  C2. \<open>decodeDigipin\<close> of \<^verbatim>\<open>4P3-JM8-K4L6\<close> succeeds, and \<open>encodeDigipin\<close> of the
  centre that it returns is \<^verbatim>\<open>4P3-JM8-K4L6\<close> again, in binary64 as in exact arithmetic.
\<close>

theorem known_vector:
  "decodeDigipin binary64 ''4P3-JM8-K4L6'' =
     Inr (Some \<lparr>center_lat = 6781883 / 524288, center_lon = 40697695 / 524288,
                bounds = \<lparr>minLat = 3390937 / 262144, maxLat = 1695473 / 131072,
                           minLon = 20348843 / 262144, maxLon = 5087213 / 65536\<rparr>\<rparr>) \<and>
   encodeDigipin binary64 (6781883 / 524288) (40697695 / 524288) = Inr (Some ''4P3-JM8-K4L6'') \<and>
   decodeDigipin exact ''4P3-JM8-K4L6'' = decodeDigipin binary64 ''4P3-JM8-K4L6'' \<and>
   encodeDigipin exact (6781883 / 524288) (40697695 / 524288) = Inr (Some ''4P3-JM8-K4L6'')"
proof -
  have n: "toUpperCase (replace_hyphens ''4P3-JM8-K4L6'') = ''4P3JM8K4L6''"
    by (simp add: toUpperCase_def toUpperChar_def replace_hyphens_def)
  have a: "set ''4P3JM8K4L6'' \<subseteq> alphabet" by (simp add: alphabet_def)
  have l: "length ''4P3JM8K4L6'' = 10" by simp
  have h: "hyphenate ''4P3JM8K4L6'' = ''4P3-JM8-K4L6''" by (simp add: hyphenate_def slice_def)
  have d: "decodeDigipin rnd ''4P3-JM8-K4L6'' =
     Inr (Some \<lparr>center_lat = 6781883 / 524288, center_lon = 40697695 / 524288,
                bounds = \<lparr>minLat = 3390937 / 262144, maxLat = 1695473 / 131072,
                           minLon = 20348843 / 262144, maxLon = 5087213 / 65536\<rparr>\<rparr>)"
    if "grid_exact rnd" for rnd
    unfolding decodeDigipin_eval[OF that l a n] path_index_eval
    by (simp add: cell_def MAX_LAT_def MIN_LON_def)
  have e: "encodeDigipin rnd (6781883 / 524288) (40697695 / 524288) = Inr (Some ''4P3-JM8-K4L6'')"
    if "grid_exact rnd" for rnd
    using center_reencodes[OF that l a n d[OF that]] by (simp add: h)
  show ?thesis
    using d[OF grid_exact_binary64] d[OF grid_exact_exact] e[OF grid_exact_binary64]
      e[OF grid_exact_exact] by simp
qed

section \<open>Round trip in binary64\<close>

text \<open>
  In exact arithmetic the rectangle decoded from the code of a point contains the point
  (\<open>roundtrip_exact\<close>). In binary64 the subtraction \<^verbatim>\<open>maxLat - lat\<close> rounds: for the
  latitude \<open>11.5 + 2 ^ -49\<close>, the number next above the grid line \<open>11.5\<close>, the
  difference \<open>27 - 2 ^ -49\<close> from \<open>38.5\<close> lies half way between two numbers and is
  rounded to \<open>27\<close>, so that the first row is 3 where it is 2 in exact arithmetic; all the
  following rows are clamped to 0.
\<close>

lemma round_half_even_nonpos:
  assumes "q \<le> 0"
  shows "round_half_even q \<le> 0"
proof (cases "\<lfloor>q\<rfloor> = 0")
  case True
  then have "0 \<le> q" by linarith
  with assms have "q = 0" by simp
  then show ?thesis by (simp add: round_half_even_def)
next
  case False
  have "\<lfloor>q\<rfloor> \<le> 0" using assms by linarith
  with False have "\<lfloor>q\<rfloor> + 1 \<le> 0" by linarith
  then show ?thesis by (simp add: round_half_even_def Let_def)
qed

lemma binary64_nonpos:
  assumes "x \<le> 0"
  shows "binary64 x \<le> 0"
proof (cases "x = 0")
  case True
  then show ?thesis by (simp add: binary64_def)
next
  case False
  define u :: real where "u = 2 powi (max (ilog2 \<bar>x\<bar>) (- 1022) - 52)"
  have u: "0 < u" by (simp add: u_def zero_less_power_int)
  then have "x / u \<le> 0" using assms by (simp add: divide_le_0_iff)
  then have "round_half_even (x / u) \<le> 0" by (rule round_half_even_nonpos)
  then have "of_int (round_half_even (x / u)) * u \<le> 0"
    using u by (simp add: mult_le_0_iff)
  then show ?thesis using False by (simp add: binary64_def Let_def u_def)
qed

lemma encode_row_above:
  assumes ex: "grid_exact rnd" and np: "\<forall>x\<le>0. rnd x \<le> 0" and k: "k < 10"
    and above: "maxLat (cell k R C) \<le> lat"
  shows "encode_row rnd lat (cell k R C) = 0"
proof -
  have d: "rnd (maxLat (cell k R C) - lat) \<le> 0" using np above by simp
  have "0 < (36 / 4 ^ Suc k :: real)" by simp
  then have "rnd (maxLat (cell k R C) - lat) / (36 / 4 ^ Suc k) \<le> 0"
    using d by (intro divide_nonpos_pos)
  then have "rnd (rnd (maxLat (cell k R C) - lat) / (36 / 4 ^ Suc k)) \<le> 0"
    using np by blast
  then have "\<lfloor>rnd (rnd (maxLat (cell k R C) - lat) / (36 / 4 ^ Suc k))\<rfloor> \<le> 0"
    by linarith
  then show ?thesis
    apply (simp only: encode_row_def Let_def cell_divs(1)[OF ex k])
    apply (simp only: num_sub_def num_div_def)
    done
qed

lemma symbol_at_00: "symbol_at 0 0 = CHR ''F''"
  by (simp add: symbol_at_def DIGIPIN_GRID_def)

lemma cell_quarter:
  "maxLat (cell (Suc k) (4 * R) C') = maxLat (cell k R C)"
  "minLon (cell (Suc k) R' (4 * C)) = minLon (cell k R C)"
  by (simp_all add: cell_def)

lemma encode_loop_above:
  "st = (cell level R C, d) \<Longrightarrow> grid_exact rnd \<Longrightarrow> \<forall>x\<le>0. rnd x \<le> 0 \<Longrightarrow> level \<le> 10 \<Longrightarrow>
   R < 4 ^ level \<Longrightarrow> C < 4 ^ level \<Longrightarrow> maxLat (cell level R C) \<le> lat \<Longrightarrow>
   lon - MIN_LON = of_int j * (9 / 2 ^ 19) \<Longrightarrow> minLon (cell level R C) \<le> lon \<Longrightarrow>
   lon < minLon (cell level R C) + 36 / 4 ^ 10 \<Longrightarrow>
   encode_loop rnd lat lon level st =
     Inr (cell 10 (R * 4 ^ (10 - level)) (C * 4 ^ (10 - level)),
          d @ replicate (10 - level) CHR ''F'')"
proof (induction rnd lat lon level st arbitrary: R C d rule: encode_loop.induct)
  case (1 rnd lat lon level st)
  show ?case
  proof (cases "level < 10")
    case False
    with "1.prems" have "level = 10" by simp
    then show ?thesis using "1.prems"(1) by (simp add: encode_loop.simps[of _ _ _ 10])
  next
    case True
    define w :: real where "w = 36 / 4 ^ 10"
    define h :: real where "h = 36 / 4 ^ Suc level"
    define D where "D = lon - minLon (cell level R C)"
    have "(4::real) ^ Suc level \<le> 4 ^ 10" using True by (intro power_increasing) simp_all
    then have wh: "w \<le> h" unfolding w_def h_def by (intro divide_left_mono) simp_all
    have h: "0 < h" by (simp add: h_def)
    have D: "0 \<le> D" "D < h" using "1.prems"(9,10) wh by (simp_all add: D_def w_def)
    have "maxLon (cell level R C) = minLon (cell level R C) + 4 * h"
      by (simp add: cell_def h_def field_simps)
    then have up: "lon \<le> maxLon (cell level R C)" using D h by (simp add: D_def)
    have row: "encode_row rnd lat (cell level R C) = 0"
      by (rule encode_row_above[OF "1.prems"(2,3) True "1.prems"(7)])
    have "0 \<le> D / h" "D / h < 1" using D h by simp_all
    then have "\<lfloor>D / h\<rfloor> = 0" by (simp add: floor_eq_iff)
    then have col: "encode_col rnd lon (cell level R C) = 0"
      using encode_col_lattice[OF "1.prems"(2) True "1.prems"(8,9) up]
      by (simp add: D_def h_def)
    have lev: "encode_level rnd lat lon st =
                 Inr (cell (level + 1) (4 * R) (4 * C), d @ [CHR ''F''])"
      using encode_level_cell[OF "1.prems"(2) True "1.prems"(5,6), of lat lon d]
      by (simp add: "1.prems"(1) row col symbol_at_00)
    have R': "4 * R < 4 ^ (level + 1)" "4 * C < 4 ^ (level + 1)"
      using "1.prems"(5,6) by simp_all
    have a: "maxLat (cell (level + 1) (4 * R) (4 * C)) \<le> lat"
      "minLon (cell (level + 1) (4 * R) (4 * C)) \<le> lon"
      "lon < minLon (cell (level + 1) (4 * R) (4 * C)) + 36 / 4 ^ 10"
      using "1.prems"(7,9,10) cell_quarter[of level R "4 * C" C] cell_quarter(2)[of level "4 * R" C R]
      by simp_all
    have "10 - level = Suc (10 - (level + 1))" using True by simp
    then have p: "4 * R * 4 ^ (10 - (level + 1)) = R * 4 ^ (10 - level)"
      "4 * C * 4 ^ (10 - (level + 1)) = C * 4 ^ (10 - level)"
      by simp_all
    have r: "[CHR ''F''] @ replicate (10 - (level + 1)) CHR ''F'' = replicate (10 - level) CHR ''F''"
      using \<open>10 - level = Suc (10 - (level + 1))\<close> by simp
    from "1.IH"[OF True lev refl "1.prems"(2,3) _ R' a(1) "1.prems"(8) a(2,3)] True
    have "encode_loop rnd lat lon (level + 1) (cell (level + 1) (4 * R) (4 * C), d @ [CHR ''F''])
          = Inr (cell 10 (R * 4 ^ (10 - level)) (C * 4 ^ (10 - level)),
                 d @ replicate (10 - level) CHR ''F'')"
      unfolding p using r by simp
    then show ?thesis using True lev by (subst encode_loop.simps) simp
  qed
qed

lemma boundary_row0: "encode_row binary64 (11.5 + 1 / 2 ^ 49) (cell 0 0 0) = 3"
proof -
  have a: "num_sub binary64 (maxLat (cell 0 0 0)) (11.5 + 1 / 2 ^ 49) = 27"
    by (simp add: num_sub_def cell_def MAX_LAT_def binary64_eval)
  have b: "num_div binary64 27 (36 / 4 ^ Suc 0) = 3"
    by (simp add: num_div_def binary64_eval)
  show ?thesis
    apply (simp only: encode_row_def Let_def cell_divs(1)[OF grid_exact_binary64, of 0 0 0, simplified])
    apply (simp only: a)
    apply (simp add: b[simplified])
    done
qed

lemma boundary_row0_exact: "encode_row exact (11.5 + 1 / 2 ^ 49) (cell 0 0 0) = 2"
proof -
  have "\<lfloor>(27 - 1 / 2 ^ 49) / (9 :: real)\<rfloor> = 2" by (simp add: floor_eq_iff)
  then show ?thesis by (simp add: encode_exact cell_def MAX_LAT_def)
qed

text \<open>
  The longitude is 77 or lies less than the width of a finest cell east of it, on the
  lattice.
\<close>

lemma boundary_cols:
  assumes ex: "grid_exact rnd" and j: "lon - MIN_LON = of_int j * (9 / 2 ^ 19)"
    and lo: "77 \<le> lon" and hi: "lon < 77 + 36 / 4 ^ 10"
  shows "encode_col rnd lon (cell 0 0 0) = 1" "encode_col rnd lon (cell 1 3 1) = 2"
proof -
  have "encode_col rnd lon (cell 0 0 0) =
          min 3 (max 0 \<lfloor>(lon - minLon (cell 0 0 0)) / (36 / 4 ^ Suc 0)\<rfloor>)"
    by (rule encode_col_lattice[OF ex _ j]) (use lo hi in \<open>simp_all add: cell_def MIN_LON_def\<close>)
  also have "\<dots> = 1" using lo hi by (simp add: cell_def MIN_LON_def floor_eq_iff)
  finally show "encode_col rnd lon (cell 0 0 0) = 1" .
  have "encode_col rnd lon (cell 1 3 1) =
          min 3 (max 0 \<lfloor>(lon - minLon (cell 1 3 1)) / (36 / 4 ^ Suc 1)\<rfloor>)"
    by (rule encode_col_lattice[OF ex _ j]) (use lo hi in \<open>simp_all add: cell_def MIN_LON_def\<close>)
  also have "\<dots> = 2" using lo hi by (simp add: cell_def MIN_LON_def floor_eq_iff)
  finally show "encode_col rnd lon (cell 1 3 1) = 2" .
qed

lemma boundary_loop:
  assumes j: "lon - MIN_LON = of_int j * (9 / 2 ^ 19)"
    and lo: "77 \<le> lon" and hi: "lon < 77 + 36 / 4 ^ 10"
  shows "encode_loop binary64 (11.5 + 1 / 2 ^ 49) lon 0 (INDIA, '''') =
     Inr (cell 10 786432 393216, ''M9FFFFFFFF'')"
proof -
  define lat :: real where "lat = 11.5 + 1 / 2 ^ 49"
  note ex = grid_exact_binary64
  note cols = boundary_cols[OF ex j lo hi]
  have np: "\<forall>x\<le>0. binary64 x \<le> 0" by (simp add: binary64_nonpos)
  have r0: "encode_row binary64 lat (cell 0 0 0) = 3"
    unfolding lat_def by (rule boundary_row0)
  have l0: "encode_level binary64 lat lon (cell 0 0 0, '''') = Inr (cell 1 3 1, ''M'')"
    using encode_level_cell[OF ex, of 0 0 0 lat lon "''''", unfolded r0 cols(1)]
    by (simp add: symbol_at_def DIGIPIN_GRID_def)
  have r1: "encode_row binary64 lat (cell 1 3 1) = 0"
    by (rule encode_row_above[OF ex np]) (simp_all add: cell_def MAX_LAT_def lat_def)
  have l1: "encode_level binary64 lat lon (cell 1 3 1, ''M'') = Inr (cell 2 12 6, ''M9'')"
    using encode_level_cell[OF ex, of 1 3 1 lat lon "''M''", unfolded r1 cols(2)]
    by (simp add: symbol_at_def DIGIPIN_GRID_def numeral_2_eq_2)
  have m: "minLon (cell 2 12 6) = 77" "maxLat (cell 2 12 6) \<le> lat"
    by (simp_all add: cell_def MAX_LAT_def MIN_LON_def lat_def)
  have t: "encode_loop binary64 lat lon 2 (cell 2 12 6, ''M9'') =
             Inr (cell 10 (12 * 4 ^ (10 - 2)) (6 * 4 ^ (10 - 2)), ''M9'' @ replicate (10 - 2) CHR ''F'')"
    by (rule encode_loop_above[OF refl ex np _ _ _ m(2) j]) (use lo hi in \<open>simp_all add: m(1)\<close>)
  have "encode_loop binary64 lat lon 0 (cell 0 0 0, '''') =
          encode_loop binary64 lat lon 1 (cell 1 3 1, ''M'')"
    by (subst encode_loop.simps, subst l0) simp
  also have "\<dots> = encode_loop binary64 lat lon 2 (cell 2 12 6, ''M9'')"
    by (subst encode_loop.simps, subst l1) (simp add: numeral_2_eq_2)
  also have "\<dots> = Inr (cell 10 786432 393216, ''M9FFFFFFFF'')"
  proof -
    have "replicate (10 - 2) CHR ''F'' = ''FFFFFFFF''" by (simp add: numeral_eq_Suc)
    then show ?thesis unfolding t by simp
  qed
  finally show ?thesis by (simp only: INDIA_cell lat_def)
qed

text \<open>
  C1 at the input \<open>(11.5 + 2 ^ -49, 77)\<close>, which is within the bounds: in binary64,
  \<open>encodeDigipin\<close> returns \<^verbatim>\<open>M9F-FFF-FFFF\<close>, and \<open>decodeDigipin\<close> of this code returns
  a rectangle whose \<open>maxLat\<close> is \<open>11.5\<close>, which does not contain the point.
\<close>

theorem roundtrip_binary64_boundary:
  "encodeDigipin binary64 (11.5 + 1 / 2 ^ 49) 77 = Inr (Some ''M9F-FFF-FFFF'') \<and>
   decodeDigipin binary64 ''M9F-FFF-FFFF'' =
     Inr (Some \<lparr>center_lat = 11.5 - 9 / 524288, center_lon = 77 + 9 / 524288,
                bounds = \<lparr>minLat = 11.5 - 9 / 262144, maxLat = 11.5,
                           minLon = 77, maxLon = 77 + 9 / 262144\<rparr>\<rparr>) \<and>
   \<not> contains \<lparr>minLat = 11.5 - 9 / 262144, maxLat = 11.5, minLon = 77, maxLon = 77 + 9 / 262144\<rparr>
       (11.5 + 1 / 2 ^ 49) 77 \<and>
   encode_row binary64 (11.5 + 1 / 2 ^ 49) INDIA = 3 \<and>
   encode_row exact (11.5 + 1 / 2 ^ 49) INDIA = 2"
proof -
  have bl: "encode_loop binary64 (11.5 + 1 / 2 ^ 49) 77 0 (INDIA, '''') =
              Inr (cell 10 786432 393216, ''M9FFFFFFFF'')"
    by (rule boundary_loop[of _ 786432]) (simp_all add: MIN_LON_def)
  have e: "encodeDigipin binary64 (11.5 + 1 / 2 ^ 49) 77 = Inr (Some ''M9F-FFF-FFFF'')"
    unfolding encodeDigipin_def bl
    by (simp add: MIN_LAT_def MAX_LAT_def MIN_LON_def MAX_LON_def slice_def)
  have n: "toUpperCase (replace_hyphens ''M9F-FFF-FFFF'') = ''M9FFFFFFFF''"
    by (simp add: toUpperCase_def toUpperChar_def replace_hyphens_def)
  have a: "set ''M9FFFFFFFF'' \<subseteq> alphabet" by (simp add: alphabet_def)
  have l: "length ''M9FFFFFFFF'' = 10" by simp
  have d: "decodeDigipin binary64 ''M9F-FFF-FFFF'' =
     Inr (Some \<lparr>center_lat = 11.5 - 9 / 524288, center_lon = 77 + 9 / 524288,
                bounds = \<lparr>minLat = 11.5 - 9 / 262144, maxLat = 11.5,
                           minLon = 77, maxLon = 77 + 9 / 262144\<rparr>\<rparr>)"
    unfolding decodeDigipin_eval[OF grid_exact_binary64 l a n] path_index_eval
    by (simp add: cell_def MAX_LAT_def MIN_LON_def)
  have c: "\<not> contains \<lparr>minLat = 11.5 - 9 / 262144, maxLat = 11.5, minLon = 77,
                         maxLon = 77 + 9 / 262144\<rparr> (11.5 + 1 / 2 ^ 49) 77"
    by (simp add: contains_def)
  from e d c boundary_row0 boundary_row0_exact show ?thesis
    by (simp only: INDIA_cell simp_thms)
qed

section \<open>Monotonic resolution\<close>





end
